theory Spec2Isabelle
  imports Main "HOL-Library.Word" "HOL-Library.Signed_Division"
begin

unbundle bit_operations_syntax

section \<open>Recovery password: data model\<close>

text \<open>
  A shallow embedding of \<^verbatim>\<open>src/accesses/rp/recovery_password.c\<close>.
  Bytes (\<^verbatim>\<open>uint8_t\<close>) are \<open>8 word\<close>, the short password entries
  (\<^verbatim>\<open>uint16_t\<close>) are \<open>16 word\<close>. A buffer is the list of its bytes; a C
  string is read from a buffer up to its first NUL byte. A pointer argument that the
  code tests against \<^verbatim>\<open>NULL\<close> is an \<open>option\<close>.
\<close>

type_synonym u8 = "8 word"
type_synonym u16 = "16 word"
type_synonym u64 = "64 word"

text \<open>
  The C functions return \<^verbatim>\<open>TRUE\<close> or \<^verbatim>\<open>FALSE\<close>. The model keeps, with
  \<^verbatim>\<open>FALSE\<close>, which \<^verbatim>\<open>return FALSE\<close> was taken and what its log message
  reports.
\<close>

datatype 'e status = TRUE | FALSE 'e

text \<open>
  The constants of \<^verbatim>\<open>recovery_password.h\<close>: eight blocks of six digits (the code
  itself uses \<^verbatim>\<open>48+7\<close> for the length and a stride of 7).
\<close>

abbreviation (input) NB_RP_BLOCS :: nat where "NB_RP_BLOCS \<equiv> 8"
abbreviation (input) NB_DIGIT_BLOC :: nat where "NB_DIGIT_BLOC \<equiv> 6"

subsection \<open>C library functions used by the code\<close>

text \<open>\<^verbatim>\<open>isspace\<close> and \<^verbatim>\<open>isdigit\<close> in the C locale.\<close>

definition isspace :: "u8 \<Rightarrow> bool" where
  "isspace c \<longleftrightarrow> c = 32 \<or> (9 \<le> c \<and> c \<le> 13)"

definition isdigit :: "u8 \<Rightarrow> bool" where
  "isdigit c \<longleftrightarrow> 48 \<le> c \<and> c \<le> 57"

text \<open>The bounds of \<^verbatim>\<open>long int\<close> (LP64).\<close>

definition LONG_MAX :: int where "LONG_MAX = 2 ^ 63 - 1"
definition LONG_MIN :: int where "LONG_MIN = - (2 ^ 63)"

text \<open>The digit run of \<^verbatim>\<open>strtol\<close>: it stops at the first byte that is not a digit.\<close>

fun strtol_digits :: "int \<Rightarrow> u8 list \<Rightarrow> int" where
  "strtol_digits acc [] = acc"
| "strtol_digits acc (c # cs) =
     (if isdigit c then strtol_digits (10 * acc + (uint c - 48)) cs else acc)"

text \<open>
  \<^verbatim>\<open>strtol(s, NULL, 10)\<close>: leading white space is skipped, one sign is accepted,
  then the digits are read; with no digit at all the value is 0. The second component
  says whether \<^verbatim>\<open>errno\<close> is set to \<^verbatim>\<open>ERANGE\<close> (the value is then clamped).
  A NUL byte is neither a space nor a digit, so reading stops there.
\<close>

definition strtol :: "u8 list \<Rightarrow> int \<times> bool" where
  "strtol s =
     (let s1 = dropWhile isspace s;
          neg = (case s1 of [] \<Rightarrow> False | c # _ \<Rightarrow> c = 45);
          s2 = (case s1 of [] \<Rightarrow> [] | c # cs \<Rightarrow> if c = 45 \<or> c = 43 then cs else s1);
          n = strtol_digits 0 s2;
          v = (if neg then - n else n)
      in if LONG_MAX < v then (LONG_MAX, True)
         else if v < LONG_MIN then (LONG_MIN, True)
         else (v, False))"

text \<open>\<^verbatim>\<open>strlen\<close>: the number of bytes before the first NUL.\<close>

definition strlen :: "u8 list \<Rightarrow> nat" where
  "strlen s = length (takeWhile (\<lambda>c. c \<noteq> 0) s)"

section \<open>Validating one block\<close>

text \<open>
  The failures of \<^verbatim>\<open>valid_block\<close>, one per \<^verbatim>\<open>return FALSE\<close>, with the block
  number and the value its message prints.
\<close>

datatype block_error =
    DigitsNull
  | ConversionRange
  | NotDivisibleBy11 int int
  | NotLessThan720896 int int
  | BadCheckDigit int int

text \<open>
  \<^verbatim>\<open>digits[i]\<close>. Both callers pass a buffer of \<^verbatim>\<open>NB_DIGIT_BLOC + 1\<close> bytes
  whose last byte is NUL; the model passes the bytes before that NUL, and a read at the
  end of a shorter list reads the terminator.
\<close>

definition byte_at :: "u8 list \<Rightarrow> nat \<Rightarrow> u8" where
  "byte_at s i = (if i < length s then s ! i else 0)"

text \<open>
  The check digit. The sum is computed in \<^verbatim>\<open>int\<close>, cast to \<^verbatim>\<open>int8_t\<close>
  (wrapping), and reduced with C's truncating \<^verbatim>\<open>%\<close>; the result is stored in an
  \<^verbatim>\<open>int8_t\<close>.
\<close>

definition check_digit_init :: "u8 list \<Rightarrow> u8" where
  "check_digit_init digits =
     word_of_int
       (sint (word_of_int
          (uint (byte_at digits 0) - uint (byte_at digits 1) + uint (byte_at digits 2)
           - uint (byte_at digits 3) + uint (byte_at digits 4) - 48) :: u8)
        smod 11)"

text \<open>\<^verbatim>\<open>while(check_digit < 0) check_digit = (int8_t)(check_digit + 11);\<close>\<close>

function check_digit_loop :: "u8 \<Rightarrow> u8" where
  "check_digit_loop check_digit =
     (if sint check_digit < 0 then check_digit_loop (check_digit + 11) else check_digit)"
  by pat_completeness auto

lemma sint_add_11:
  fixes c :: u8
  assumes "sint c < 0"
  shows "sint (c + 11) = sint c + 11"
proof -
  have lo: "- 128 \<le> sint c"
    using sint_ge [of c] by simp
  have "sint (c + 11) = signed_take_bit 7 (sint c + 11)"
    by (simp add: sint_word_ariths)
  also have "\<dots> = sint c + 11"
    using assms lo by (intro signed_take_bit_int_eq_self) auto
  finally show ?thesis .
qed

termination check_digit_loop
  by (relation "measure (\<lambda>c. nat (- sint c))") (auto simp: sint_add_11)

declare check_digit_loop.simps [simp del]

text \<open>
  \<^verbatim>\<open>valid_block(digits, block_nb, short_password)\<close>. \<open>short_password\<close> is
  \<open>None\<close> for a \<^verbatim>\<open>NULL\<close> pointer and \<open>Some v\<close> for a pointer to a cell
  holding \<open>v\<close>; the second component of the result is that cell after the call. The
  division of the last step is C's (truncating), and the cast to \<^verbatim>\<open>uint16_t\<close>
  keeps the low 16 bits.
\<close>

definition valid_block ::
  "u8 list option \<Rightarrow> int \<Rightarrow> u16 option \<Rightarrow> block_error status \<times> u16 option" where
  "valid_block digits_ptr block_nb short_password =
     (case digits_ptr of
        None \<Rightarrow> (FALSE DigitsNull, short_password)
      | Some digits \<Rightarrow>
          (let (block, erange) = strtol digits in
           if erange then (FALSE ConversionRange, short_password)
           else if block smod 11 \<noteq> 0 then
             (FALSE (NotDivisibleBy11 block_nb block), short_password)
           else if block \<ge> 720896 then
             (FALSE (NotLessThan720896 block_nb block), short_password)
           else
             (let check_digit = check_digit_loop (check_digit_init digits) in
              if sint check_digit \<noteq> uint (byte_at digits 5) - 48 then
                (FALSE (BadCheckDigit block_nb block), short_password)
              else
                (TRUE,
                 (case short_password of
                    None \<Rightarrow> None
                  | Some _ \<Rightarrow> Some (word_of_int (block sdiv 11)))))))"

section \<open>Validating the recovery password\<close>

datatype key_error =
    PasswordNull
  | ShortPasswordNull
  | WrongLength
  | BlockInvalid block_error

text \<open>
  The loop of \<^verbatim>\<open>is_valid_key\<close>: \<open>rp\<close> advances by 7 bytes and \<open>sp\<close> by one
  entry each round, so round \<open>loop\<close> copies the six bytes at offset \<open>7 * loop\<close>
  and stores through \<open>sp + loop\<close>. The first invalid block ends the loop; the
  entries stored so far stay in the array.
\<close>

function is_valid_key_loop ::
  "u8 list \<Rightarrow> nat \<Rightarrow> u16 list \<Rightarrow> key_error status \<times> u16 list" where
  "is_valid_key_loop recovery_password loop short_password =
     (if loop < NB_RP_BLOCS then
        (let digits = take NB_DIGIT_BLOC (drop (7 * loop) recovery_password) in
         case valid_block (Some digits) (int loop + 1) (Some (short_password ! loop)) of
           (FALSE e, _) \<Rightarrow> (FALSE (BlockInvalid e), short_password)
         | (TRUE, cell) \<Rightarrow>
             is_valid_key_loop recovery_password (loop + 1)
               (case cell of None \<Rightarrow> short_password
                | Some v \<Rightarrow> short_password[loop := v]))
      else (TRUE, short_password))"
  by pat_completeness auto

termination is_valid_key_loop
  by (relation "measure (\<lambda>(rp, loop, sp). NB_RP_BLOCS - loop)") auto

declare is_valid_key_loop.simps [simp del]

text \<open>
  \<^verbatim>\<open>is_valid_key(recovery_password, short_password)\<close>: the password is the buffer
  the pointer refers to, the short password the array of \<^verbatim>\<open>NB_RP_BLOCS\<close>
  entries; the result holds the array after the call.
\<close>

definition is_valid_key ::
  "u8 list option \<Rightarrow> u16 list option \<Rightarrow> key_error status \<times> u16 list option" where
  "is_valid_key recovery_password short_password =
     (case recovery_password of
        None \<Rightarrow> (FALSE PasswordNull, short_password)
      | Some rp \<Rightarrow>
          (case short_password of
             None \<Rightarrow> (FALSE ShortPasswordNull, None)
           | Some sp \<Rightarrow>
               if strlen rp \<noteq> 48 + 7 then (FALSE WrongLength, Some sp)
               else (let (r, sp') = is_valid_key_loop rp 0 sp in (r, Some sp'))))"

section \<open>The chain hash\<close>

text \<open>
  Modelled from the spec: the constants \<^verbatim>\<open>SALT_LENGTH\<close>,
  \<^verbatim>\<open>SHA256_DIGEST_LENGTH\<close> and \<^verbatim>\<open>INTERMEDIATE_KEY_LENGTH\<close>, which the
  code takes from headers that are not among the sources (a 16-byte salt, a 32-byte
  digest, a 32-byte intermediate key).
\<close>

abbreviation (input) SALT_LENGTH :: nat where "SALT_LENGTH \<equiv> 16"
abbreviation (input) SHA256_DIGEST_LENGTH :: nat where "SHA256_DIGEST_LENGTH \<equiv> 32"
abbreviation (input) INTERMEDIATE_KEY_LENGTH :: nat where "INTERMEDIATE_KEY_LENGTH \<equiv> 32"

text \<open>
  Modelled from the spec: the working state \<^verbatim>\<open>bitlocker_chain_hash_t\<close>, declared in
  \<^verbatim>\<open>recovery_password.h\<close>; the code uses its four fields. How the structure lies
  in memory (the order of the fields, the byte order of the counter) is not fixed here:
  the functions below take the byte image of the structure as the parameter
  \<open>bytes_of\<close>, and the hash function \<^verbatim>\<open>SHA256\<close> as the parameter \<open>sha256\<close>.
\<close>

record bitlocker_chain_hash_t =
  updated_hash :: "u8 list"
  password_hash :: "u8 list"
  salt :: "u8 list"
  hash_count :: u64

text \<open>\<^verbatim>\<open>memcpy(dst, src, n)\<close> on buffers that hold at least \<open>n\<close> bytes.\<close>

definition memcpy :: "u8 list \<Rightarrow> u8 list \<Rightarrow> nat \<Rightarrow> u8 list" where
  "memcpy dst src n = take n src @ drop n dst"

text \<open>
  One round of the loop of \<^verbatim>\<open>chain_hash\<close>: the whole structure is hashed into its
  own field \<^verbatim>\<open>updated_hash\<close>, then the counter is incremented.
\<close>

definition chain_hash_round ::
  "(u8 list \<Rightarrow> u8 list) \<Rightarrow> (bitlocker_chain_hash_t \<Rightarrow> u8 list) \<Rightarrow>
   bitlocker_chain_hash_t \<Rightarrow> bitlocker_chain_hash_t" where
  "chain_hash_round sha256 bytes_of ch =
     (let ch1 = ch\<lparr>updated_hash := sha256 (bytes_of ch)\<rparr>
      in ch1\<lparr>hash_count := hash_count ch1 + 1\<rparr>)"

text \<open>\<^verbatim>\<open>for(loop = 0; loop < 0x100000; ++loop)\<close>\<close>

function chain_hash_loop ::
  "(u8 list \<Rightarrow> u8 list) \<Rightarrow> (bitlocker_chain_hash_t \<Rightarrow> u8 list) \<Rightarrow>
   nat \<Rightarrow> bitlocker_chain_hash_t \<Rightarrow> bitlocker_chain_hash_t" where
  "chain_hash_loop sha256 bytes_of loop ch =
     (if loop < 0x100000
      then chain_hash_loop sha256 bytes_of (loop + 1) (chain_hash_round sha256 bytes_of ch)
      else ch)"
  by pat_completeness auto

termination chain_hash_loop
  by (relation "measure (\<lambda>(sha256, bytes_of, loop, ch). 0x100000 - loop)") auto

declare chain_hash_loop.simps [simp del]

text \<open>The structure after \<^verbatim>\<open>memset\<close>, the first hash and the copy of the salt.\<close>

definition chain_hash_init ::
  "(u8 list \<Rightarrow> u8 list) \<Rightarrow> u8 list \<Rightarrow> u8 list \<Rightarrow> bitlocker_chain_hash_t" where
  "chain_hash_init sha256 recovery_key salt' =
     \<lparr>updated_hash = replicate SHA256_DIGEST_LENGTH 0,
      password_hash = sha256 (take 16 recovery_key),
      salt = memcpy (replicate SALT_LENGTH 0) salt' SALT_LENGTH,
      hash_count = 0\<rparr>"

text \<open>
  \<^verbatim>\<open>chain_hash(recovery_key, salt, result)\<close>: it always returns \<^verbatim>\<open>TRUE\<close>; the
  second component is the buffer \<open>result\<close> after the call.
\<close>

definition chain_hash ::
  "(u8 list \<Rightarrow> u8 list) \<Rightarrow> (bitlocker_chain_hash_t \<Rightarrow> u8 list) \<Rightarrow>
   u8 list \<Rightarrow> u8 list \<Rightarrow> u8 list \<Rightarrow> unit status \<times> u8 list" where
  "chain_hash sha256 bytes_of recovery_key salt' result =
     (let ch = chain_hash_loop sha256 bytes_of 0 (chain_hash_init sha256 recovery_key salt')
      in (TRUE, memcpy result (updated_hash ch) SHA256_DIGEST_LENGTH))"

section \<open>The intermediate key\<close>

text \<open>
  The loop of \<^verbatim>\<open>intermediate_key\<close> that packs the short password into the buffer
  \<^verbatim>\<open>iresult\<close>: round \<open>loop\<close> writes the low byte of \<^verbatim>\<open>passwd[loop]\<close> at
  offset \<open>2 * loop\<close> and its high byte right after.
\<close>

definition distill_round :: "u16 list \<Rightarrow> nat \<Rightarrow> u8 list \<Rightarrow> u8 list" where
  "distill_round passwd loop buf =
     buf[2 * loop := ucast (passwd ! loop AND 0x00ff),
         2 * loop + 1 := ucast (drop_bit 8 (passwd ! loop AND 0xff00))]"

definition distill :: "u16 list \<Rightarrow> u8 list \<Rightarrow> u8 list" where
  "distill passwd iresult = fold (distill_round passwd) [0..<NB_RP_BLOCS] iresult"

datatype intermediate_key_error =
    NoRecoveryPassword
  | NoResultKey
  | InvalidRecoveryPassword key_error

text \<open>
  \<^verbatim>\<open>intermediate_key(recovery_password, salt, result_key)\<close>; the second component
  is the buffer \<open>result_key\<close> after the call.
\<close>

definition intermediate_key ::
  "(u8 list \<Rightarrow> u8 list) \<Rightarrow> (bitlocker_chain_hash_t \<Rightarrow> u8 list) \<Rightarrow>
   u8 list option \<Rightarrow> u8 list \<Rightarrow> u8 list option \<Rightarrow>
   intermediate_key_error status \<times> u8 list option" where
  "intermediate_key sha256 bytes_of recovery_password salt' result_key =
     (case recovery_password of
        None \<Rightarrow> (FALSE NoRecoveryPassword, result_key)
      | Some rp \<Rightarrow>
          (case result_key of
             None \<Rightarrow> (FALSE NoResultKey, None)
           | Some rk \<Rightarrow>
               (let passwd = replicate NB_RP_BLOCS 0;
                    iresult = replicate INTERMEDIATE_KEY_LENGTH 0
                in case is_valid_key (Some rp) (Some passwd) of
                     (FALSE e, _) \<Rightarrow> (FALSE (InvalidRecoveryPassword e), Some rk)
                   | (TRUE, sp) \<Rightarrow>
                       (let passwd' = (case sp of None \<Rightarrow> passwd | Some p \<Rightarrow> p);
                            iresult' = distill passwd' iresult;
                            (_, rk') = chain_hash sha256 bytes_of iresult' salt' rk
                        in (TRUE, Some rk')))))"

section \<open>Interactive entry\<close>

text \<open>The C string a pointer refers to: the bytes up to the first NUL.\<close>

definition c_string :: "u8 list \<Rightarrow> u8 list" where
  "c_string buf = takeWhile (\<lambda>c. c \<noteq> 0) buf"

text \<open>Writing the bytes \<open>bs\<close> into a buffer at offset \<open>off\<close> (within its bounds).\<close>

definition write_at :: "u8 list \<Rightarrow> nat \<Rightarrow> u8 list \<Rightarrow> u8 list" where
  "write_at dst off bs = take off dst @ bs @ drop (off + length bs) dst"

text \<open>
  \<^verbatim>\<open>snprintf(dst + off, n, "%s", src)\<close> for \<open>n > 0\<close>: at most \<open>n - 1\<close> bytes of
  the string and a NUL.
\<close>

definition snprintf_s :: "u8 list \<Rightarrow> nat \<Rightarrow> nat \<Rightarrow> u8 list \<Rightarrow> u8 list" where
  "snprintf_s dst off n src = write_at dst off (take (n - 1) (c_string src) @ [0])"

text \<open>
  The local state of \<^verbatim>\<open>prompt_rp\<close>: the cursor \<open>idx\<close>, the block number, the
  buffer \<open>digits\<close> of \<^verbatim>\<open>NB_DIGIT_BLOC + 1\<close> bytes, the allocated buffer
  \<^verbatim>\<open>*rp\<close> of \<^verbatim>\<open>NB_RP_BLOCS * NB_DIGIT_BLOC + 8\<close> bytes, and the offset in it
  of the pointer \<open>blah\<close>. What the function prints is not part of the state.
\<close>

record prompt_state =
  idx :: int
  block_nb :: int
  digits :: "u8 list"
  rp_buf :: "u8 list"
  blah :: nat

datatype loop_outcome = Continue prompt_state | ReturnTrue prompt_state

text \<open>
  The backspace branch. The pointer \<open>blah\<close> is 7 bytes further for each committed
  block, so it can step back whenever \<open>block_nb > 1\<close>.
\<close>

definition backspace :: "prompt_state \<Rightarrow> prompt_state" where
  "backspace st =
     (let st1 = st\<lparr>idx := idx st - 1\<rparr>;
          st2 = (if idx st1 < 0 \<and> block_nb st1 > 1 then
                   (let b = blah st1 - (NB_DIGIT_BLOC + 1) in
                    st1\<lparr>blah := b,
                        digits := snprintf_s (digits st1) 0 NB_DIGIT_BLOC (drop b (rp_buf st1)),
                        rp_buf := (rp_buf st1)[b := 0],
                        idx := int NB_DIGIT_BLOC - 1,
                        block_nb := block_nb st1 - 1\<rparr>)
                 else st1);
          st3 = (if idx st2 < 0 then st2\<lparr>idx := 0\<rparr> else st2);
          st4 = st3\<lparr>digits := (digits st3)[nat (idx st3) := 0]\<rparr>
      in st4\<lparr>idx := idx st4 - 1\<rparr>)"

text \<open>\<^verbatim>\<open>idx = 0; memset(digits, 0, NB_DIGIT_BLOC);\<close>\<close>

definition clear_block :: "prompt_state \<Rightarrow> prompt_state" where
  "clear_block st =
     st\<lparr>idx := 0,
        digits := replicate NB_DIGIT_BLOC 0 @ drop NB_DIGIT_BLOC (digits st)\<rparr>"

text \<open>
  The end of a block: the block is validated with a \<^verbatim>\<open>NULL\<close> short password;
  a valid block is copied behind the blocks committed so far, followed by a hyphen
  unless it is the last one, which ends the function.
\<close>

definition end_of_block :: "prompt_state \<Rightarrow> loop_outcome" where
  "end_of_block st =
     (case valid_block (Some (take NB_DIGIT_BLOC (digits st))) (block_nb st) None of
        (TRUE, _) \<Rightarrow>
          (let st1 = st\<lparr>rp_buf := snprintf_s (rp_buf st) (blah st) (NB_DIGIT_BLOC + 1) (digits st),
                        blah := blah st + NB_DIGIT_BLOC\<rparr>
           in if block_nb st1 \<ge> int NB_RP_BLOCS then ReturnTrue st1
              else Continue (clear_block
                     (st1\<lparr>rp_buf := (rp_buf st1)[blah st1 := 45],
                          blah := blah st1 + 1,
                          block_nb := block_nb st1 + 1\<rparr>)))
      | (FALSE e, _) \<Rightarrow> Continue (clear_block st))"

text \<open>One round of the \<^verbatim>\<open>while(1)\<close> loop, for the byte \<open>c\<close> that was read.\<close>

definition prompt_round :: "u8 \<Rightarrow> prompt_state \<Rightarrow> loop_outcome" where
  "prompt_round c st =
     (if c = 45 then Continue st
      else
        (case (if idx st \<le> int NB_DIGIT_BLOC then
                 (if c = 8 \<or> c = 127 then Some (backspace st)
                  else if 48 \<le> c \<and> c \<le> 57
                    then Some (st\<lparr>digits := (digits st)[nat (idx st) := c]\<rparr>)
                  else None)
               else Some st) of
           None \<Rightarrow> Continue st
         | Some st1 \<Rightarrow>
             (let st2 = st1\<lparr>idx := idx st1 + 1\<rparr>
              in if idx st2 \<ge> int NB_DIGIT_BLOC then end_of_block st2 else Continue st2)))"

datatype prompt_error = RpNull | InputFailed

text \<open>
  The loop, over the bytes the input delivers: when there is none left,
  \<^verbatim>\<open>select\<close> or \<^verbatim>\<open>read\<close> fails and the function returns \<^verbatim>\<open>FALSE\<close>.
\<close>

fun prompt_loop :: "u8 list \<Rightarrow> prompt_state \<Rightarrow> prompt_error status \<times> u8 list" where
  "prompt_loop [] st = (FALSE InputFailed, rp_buf st)"
| "prompt_loop (c # input) st =
     (case prompt_round c st of
        Continue st' \<Rightarrow> prompt_loop input st'
      | ReturnTrue st' \<Rightarrow> (TRUE, rp_buf st'))"

definition prompt_init :: prompt_state where
  "prompt_init =
     \<lparr>idx = 0, block_nb = 1,
      digits = replicate (NB_DIGIT_BLOC + 1) 0,
      rp_buf = replicate (NB_RP_BLOCS * NB_DIGIT_BLOC + 8) 0,
      blah = 0\<rparr>"

text \<open>
  \<^verbatim>\<open>prompt_rp(rp)\<close> reading \<open>input\<close>: \<open>rp\<close> is \<open>None\<close> for a \<^verbatim>\<open>NULL\<close>
  pointer; the second component is the buffer \<^verbatim>\<open>*rp\<close> after the call.
\<close>

definition prompt_rp ::
  "u8 list option \<Rightarrow> u8 list \<Rightarrow> prompt_error status \<times> u8 list option" where
  "prompt_rp rp input =
     (case rp of
        None \<Rightarrow> (FALSE RpNull, None)
      | Some _ \<Rightarrow> (let (r, buf) = prompt_loop input prompt_init in (r, Some buf)))"

section \<open>The specification's notions\<close>

text \<open>The value of a digit character, and of a string of digits read in base 10.\<close>

definition digit_value :: "u8 \<Rightarrow> int" where
  "digit_value c = uint c - 48"

definition block_value :: "u8 list \<Rightarrow> int" where
  "block_value d = foldl (\<lambda>a c. 10 * a + digit_value c) 0 d"

text \<open>
  The check digit as the specification words it: the alternating sum of the first five
  digits, reduced by a remainder that may be negative (C's), then brought into
  \<open>0..10\<close> by adding 11 while the value is negative.
\<close>

function add_11_while_negative :: "int \<Rightarrow> int" where
  "add_11_while_negative x = (if x < 0 then add_11_while_negative (x + 11) else x)"
  by pat_completeness auto
termination add_11_while_negative
  by (relation "measure (\<lambda>x. nat (- x))") auto

declare add_11_while_negative.simps [simp del]

definition spec_check_digit :: "u8 list \<Rightarrow> int" where
  "spec_check_digit d =
     add_11_while_negative
       ((digit_value (d ! 0) - digit_value (d ! 1) + digit_value (d ! 2)
         - digit_value (d ! 3) + digit_value (d ! 4)) smod 11)"

text \<open>
  The inverse of the packing, as the specification names it: entry \<open>i\<close> is rebuilt
  from the bytes \<open>2 * i\<close> (low) and \<open>2 * i + 1\<close> (high).
\<close>

definition undistill :: "u8 list \<Rightarrow> u16 list" where
  "undistill buf =
     map (\<lambda>i. ucast (buf ! (2 * i)) OR push_bit 8 (ucast (buf ! (2 * i + 1))))
       [0..<NB_RP_BLOCS]"

text \<open>
  The six bytes of block \<open>k\<close> of a password (blocks are counted from 0 here, the
  messages of the code count them from 1), and acceptance of a block by
  \<open>valid_block\<close>, which depends neither on the block number nor on the pointer.
\<close>

definition block_at :: "u8 list \<Rightarrow> nat \<Rightarrow> u8 list" where
  "block_at p k = take NB_DIGIT_BLOC (drop (7 * k) p)"

definition block_accepted :: "u8 list \<Rightarrow> bool" where
  "block_accepted d \<longleftrightarrow> fst (valid_block (Some d) 0 None) = TRUE"

text \<open>
  The value \<open>valid_block\<close> stores for a block it accepts, and the short password
  array after the blocks \<open>0..<k\<close> of the password \<open>p\<close> were stored into it
  while the entries from \<open>k\<close> on were not reached.
\<close>

definition short_value :: "u8 list \<Rightarrow> u16" where
  "short_value d = word_of_int (fst (strtol d) sdiv 11)"

definition stored :: "u8 list \<Rightarrow> nat \<Rightarrow> u16 list \<Rightarrow> u16 list" where
  "stored p k sp = fold (\<lambda>i s. s[i := short_value (block_at p i)]) [0..<k] sp"

text \<open>The normalized password: the blocks, with a hyphen between two of them.\<close>

fun join_blocks :: "u8 list list \<Rightarrow> u8 list" where
  "join_blocks [] = []"
| "join_blocks [b] = b"
| "join_blocks (b # bs) = b @ 45 # join_blocks bs"

text \<open>
  The state of \<open>prompt_rp\<close> at the start of block \<open>k\<close> (counted from 0) when
  no backspace was typed: \<open>pre\<close> holds the \<open>k\<close> committed blocks, each followed
  by its hyphen, and the rest of the buffer is still zero.
\<close>

definition block_start :: "nat \<Rightarrow> u8 list \<Rightarrow> prompt_state" where
  "block_start k pre =
     \<lparr>idx = 0, block_nb = int k + 1, digits = replicate 7 0,
      rp_buf = pre @ replicate (56 - 7 * k) 0, blah = 7 * k\<rparr>"

text \<open>The bytes of an ASCII string, to write concrete inputs.\<close>

definition ascii :: "string \<Rightarrow> u8 list" where
  "ascii s = map of_char s"

section \<open>Blocks of six digits\<close>

lemma isdigit_uint: "isdigit c \<longleftrightarrow> 48 \<le> uint c \<and> uint c \<le> 57"
  by (simp add: isdigit_def word_le_def)

lemma isdigit_not_space: "isdigit c \<Longrightarrow> \<not> isspace c"
  by (auto simp: isdigit_uint isspace_def word_le_def)

lemma isdigit_not_sign: "isdigit c \<Longrightarrow> c \<noteq> 45 \<and> c \<noteq> 43"
  by (auto simp: isdigit_uint)

lemma strtol_digits_all:
  "\<forall>c\<in>set s. isdigit c \<Longrightarrow>
     strtol_digits acc s = foldl (\<lambda>a c. 10 * a + digit_value c) acc s"
  by (induction s arbitrary: acc) (simp_all add: digit_value_def)

lemma foldl_digits_bounds:
  "\<forall>c\<in>set s. isdigit c \<Longrightarrow> 0 \<le> acc \<Longrightarrow>
     0 \<le> foldl (\<lambda>a c. 10 * a + digit_value c) acc s \<and>
     foldl (\<lambda>a c. 10 * a + digit_value c) acc s < (acc + 1) * 10 ^ length s"
proof (induction s arbitrary: acc)
  case Nil
  then show ?case by simp
next
  case (Cons c s)
  have c: "0 \<le> digit_value c" "digit_value c \<le> 9"
    using Cons.prems(1) by (auto simp: isdigit_uint digit_value_def)
  have ih: "0 \<le> foldl (\<lambda>a c. 10 * a + digit_value c) (10 * acc + digit_value c) s \<and>
     foldl (\<lambda>a c. 10 * a + digit_value c) (10 * acc + digit_value c) s
       < (10 * acc + digit_value c + 1) * 10 ^ length s"
    using Cons.IH [of "10 * acc + digit_value c"] Cons.prems c by simp
  have "(10 * acc + digit_value c + 1) * 10 ^ length s \<le> (10 * acc + 10) * 10 ^ length s"
    using c by (intro mult_right_mono) auto
  moreover have "(10 * acc + 10) * 10 ^ length s = (acc + 1) * 10 ^ length (c # s)"
    by (simp add: algebra_simps)
  ultimately have "foldl (\<lambda>a c. 10 * a + digit_value c) (10 * acc + digit_value c) s
       < (acc + 1) * 10 ^ length (c # s)"
    using ih by linarith
  then show ?case using ih by simp
qed

lemma strtol_digit_string:
  assumes "\<forall>c\<in>set s. isdigit c" and "length s \<le> 6"
  shows "strtol s = (block_value s, False)"
proof -
  have dw: "dropWhile isspace s = s"
    using assms(1) by (cases s) (auto simp: isdigit_not_space)
  have s2: "(case s of [] \<Rightarrow> [] | c # cs \<Rightarrow> if c = 45 \<or> c = 43 then cs else s) = s"
    using assms(1) by (cases s) (auto dest: isdigit_not_sign)
  have neg: "(case s of [] \<Rightarrow> False | c # _ \<Rightarrow> c = 45) = False"
    using assms(1) by (cases s) (auto dest: isdigit_not_sign)
  have b: "0 \<le> block_value s" "block_value s < 10 ^ length s"
    using foldl_digits_bounds [OF assms(1), of 0] by (simp_all add: block_value_def)
  have "(10::int) ^ length s \<le> 10 ^ 6"
    using assms(2) by (intro power_increasing) auto
  then have "block_value s < 1000000" using b by simp
  then show ?thesis
    using b(1) by (simp add: strtol_def dw s2 neg strtol_digits_all [OF assms(1)]
        block_value_def [symmetric] LONG_MAX_def LONG_MIN_def)
qed

lemma sint_word_of_int_small:
  "- 128 \<le> x \<Longrightarrow> x < 128 \<Longrightarrow> sint (word_of_int x :: u8) = x"
  by (simp add: signed_of_int signed_take_bit_int_eq_self)

lemma smod_11_range: "- 10 \<le> (x::int) smod 11 \<and> x smod 11 \<le> 10"
  by (cases "x < 0") (auto simp: signed_modulo_int_def sgn_if abs_if intro: order_trans)

lemma smod_11_math:
  "(x::int) smod 11 = (if x mod 11 = 0 \<or> 0 \<le> x then x mod 11 else x mod 11 - 11)"
  by (auto simp: signed_modulo_int_def sgn_if abs_if zmod_zminus1_eq_if)

lemma check_digit_loop_small:
  assumes "- 10 \<le> x" and "x \<le> 10"
  shows "sint (check_digit_loop (word_of_int x)) = (if x < 0 then x + 11 else x)"
proof (cases "x < 0")
  case False
  have "sint (word_of_int x :: u8) = x"
    using assms by (simp add: sint_word_of_int_small)
  then show ?thesis using False by (subst check_digit_loop.simps) simp
next
  case True
  have a: "sint (word_of_int x :: u8) = x"
    using assms by (simp add: sint_word_of_int_small)
  have b: "sint (word_of_int x + 11 :: u8) = x + 11"
    using sint_add_11 [of "word_of_int x"] a True by simp
  have "check_digit_loop (word_of_int x) = check_digit_loop (word_of_int x + 11)"
    using True a by (subst check_digit_loop.simps) simp
  also have "\<dots> = word_of_int x + 11"
    using True b assms by (subst check_digit_loop.simps) simp
  finally show ?thesis
    using True b by simp
qed

lemma add_11_while_negative_small:
  assumes "- 10 \<le> x"
  shows "add_11_while_negative x = (if x < 0 then x + 11 else x)"
proof (cases "x < 0")
  case False
  then show ?thesis by (subst add_11_while_negative.simps) simp
next
  case True
  have "add_11_while_negative x = add_11_while_negative (x + 11)"
    using True by (subst add_11_while_negative.simps) simp
  also have "\<dots> = x + 11"
    using assms by (subst add_11_while_negative.simps) simp
  finally show ?thesis using True by simp
qed

lemma check_digit_math:
  assumes "- 128 \<le> s" and "s < 128"
  shows "sint (check_digit_loop (word_of_int (sint (word_of_int s :: u8) smod 11))) = s mod 11"
proof -
  have "sint (check_digit_loop (word_of_int (s smod 11))) =
          (if s smod 11 < 0 then s smod 11 + 11 else s smod 11)"
    using smod_11_range [of s] by (intro check_digit_loop_small) auto
  also have "\<dots> = s mod 11"
    by (auto simp: smod_11_math split: if_splits)
  finally show ?thesis
    using assms by (simp add: sint_word_of_int_small)
qed

lemma spec_check_digit_math:
  "add_11_while_negative (s smod 11) = s mod 11"
proof -
  have "add_11_while_negative (s smod 11) = (if s smod 11 < 0 then s smod 11 + 11 else s smod 11)"
    using smod_11_range [of s] by (intro add_11_while_negative_small) auto
  also have "\<dots> = s mod 11"
    by (auto simp: smod_11_math split: if_splits)
  finally show ?thesis .
qed

lemma length_6_cases:
  assumes "length (d :: 'a list) = 6"
  obtains c0 c1 c2 c3 c4 c5 where "d = [c0, c1, c2, c3, c4, c5]"
proof -
  from assms obtain c0 d1 where "d = c0 # d1" "length d1 = 5" by (cases d) auto
  moreover then obtain c1 d2 where "d1 = c1 # d2" "length d2 = 4" by (cases d1) auto
  moreover then obtain c2 d3 where "d2 = c2 # d3" "length d3 = 3" by (cases d2) auto
  moreover then obtain c3 d4 where "d3 = c3 # d4" "length d4 = 2" by (cases d3) auto
  moreover then obtain c4 d5 where "d4 = c4 # d5" "length d5 = 1" by (cases d4) auto
  moreover then obtain c5 where "d5 = [c5]" by (cases d5) auto
  ultimately show ?thesis using that by simp
qed

lemma check_digit_digit_string:
  assumes "length d = 6" and "\<forall>c\<in>set d. isdigit c"
  shows "sint (check_digit_loop (check_digit_init d)) =
           (digit_value (d ! 0) - digit_value (d ! 1) + digit_value (d ! 2)
            - digit_value (d ! 3) + digit_value (d ! 4)) mod 11"
proof -
  obtain c0 c1 c2 c3 c4 c5 where d: "d = [c0, c1, c2, c3, c4, c5]"
    using assms(1) by (rule length_6_cases)
  define s where "s = uint c0 - uint c1 + uint c2 - uint c3 + uint c4 - 48"
  have r: "- 128 \<le> s" "s < 128"
    using assms(2) by (auto simp: d s_def isdigit_uint)
  have "check_digit_init d = word_of_int (sint (word_of_int s :: u8) smod 11)"
    by (simp add: check_digit_init_def byte_at_def d s_def)
  then have "sint (check_digit_loop (check_digit_init d)) = s mod 11"
    using check_digit_math [OF r] by simp
  moreover have "s = digit_value (d ! 0) - digit_value (d ! 1) + digit_value (d ! 2)
            - digit_value (d ! 3) + digit_value (d ! 4)"
    by (simp add: d s_def digit_value_def)
  ultimately show ?thesis by simp
qed

lemma valid_block_digits:
  assumes "length d = 6" and "\<forall>c\<in>set d. isdigit c"
  shows "fst (valid_block (Some d) nb sp) =
     (if block_value d mod 11 \<noteq> 0 then FALSE (NotDivisibleBy11 nb (block_value d))
      else if 720896 \<le> block_value d then FALSE (NotLessThan720896 nb (block_value d))
      else if digit_value (d ! 5) \<noteq>
                (digit_value (d ! 0) - digit_value (d ! 1) + digit_value (d ! 2)
                 - digit_value (d ! 3) + digit_value (d ! 4)) mod 11
        then FALSE (BadCheckDigit nb (block_value d))
      else TRUE)"
proof -
  have st: "strtol d = (block_value d, False)"
    using assms by (intro strtol_digit_string) auto
  have nonneg: "0 \<le> block_value d"
    using foldl_digits_bounds [OF assms(2), of 0] by (simp add: block_value_def)
  have sm: "block_value d smod 11 = block_value d mod 11"
    using nonneg by (simp add: smod_11_math)
  have b5: "uint (byte_at d 5) - 48 = digit_value (d ! 5)"
    using assms(1) by (simp add: byte_at_def digit_value_def)
  show ?thesis
    by (auto simp: valid_block_def st sm b5 check_digit_digit_string [OF assms] Let_def
        split: option.splits)
qed

text \<open>
  Claim C1. For a block of six ASCII digits, \<open>valid_block\<close> returns \<open>TRUE\<close> exactly
  when the value of the block is divisible by 11, is less than 720896, and its sixth
  digit is the check digit of the first five (the alternating sum, reduced and brought
  into \<open>0..10\<close> by adding 11 while negative, which is the sum modulo 11); with a
  short password pointer that is not \<open>NULL\<close> the cell then holds the value divided
  by 11, which the 16-bit cell holds without loss.
\<close>

theorem valid_block_digit_string:
  assumes "length d = 6" and "\<forall>c\<in>set d. isdigit c"
  shows "(fst (valid_block (Some d) nb short_password) = TRUE \<longleftrightarrow>
            block_value d mod 11 = 0 \<and> block_value d < 720896 \<and>
            digit_value (d ! 5) = spec_check_digit d) \<and>
         spec_check_digit d =
            (digit_value (d ! 0) - digit_value (d ! 1) + digit_value (d ! 2)
             - digit_value (d ! 3) + digit_value (d ! 4)) mod 11 \<and>
         (fst (valid_block (Some d) nb (Some v)) = TRUE \<longrightarrow>
            snd (valid_block (Some d) nb (Some v)) =
              Some (word_of_int (block_value d div 11)) \<and>
            uint (word_of_int (block_value d div 11) :: u16) = block_value d div 11)"
proof -
  note fst_eq = valid_block_digits [OF assms]
  have nonneg: "0 \<le> block_value d"
    using foldl_digits_bounds [OF assms(2), of 0] by (simp add: block_value_def)
  have spec: "spec_check_digit d =
      (digit_value (d ! 0) - digit_value (d ! 1) + digit_value (d ! 2)
       - digit_value (d ! 3) + digit_value (d ! 4)) mod 11"
    by (simp add: spec_check_digit_def spec_check_digit_math)
  have accept: "fst (valid_block (Some d) nb sp) = TRUE \<longleftrightarrow>
            block_value d mod 11 = 0 \<and> block_value d < 720896 \<and>
            digit_value (d ! 5) = spec_check_digit d" for sp
    unfolding fst_eq spec by auto
  have st: "strtol d = (block_value d, False)"
    using assms by (intro strtol_digit_string) auto
  have sd: "block_value d sdiv 11 = block_value d div 11"
    using nonneg by (simp add: signed_divide_int_def sgn_if)
  have out: "snd (valid_block (Some d) nb (Some v)) =
              Some (word_of_int (block_value d div 11))"
    if "fst (valid_block (Some d) nb (Some v)) = TRUE"
    using that by (auto simp: valid_block_def st sd Let_def split: if_splits)
  have small: "uint (word_of_int (block_value d div 11) :: u16) = block_value d div 11"
    if "fst (valid_block (Some d) nb (Some v)) = TRUE"
  proof -
    have "block_value d < 720896" using that accept [of "Some v"] by simp
    then have "block_value d div 11 < 65536" by simp
    moreover have "0 \<le> block_value d div 11" using nonneg by simp
    ultimately show ?thesis
      by (simp add: unsigned_of_int take_bit_int_eq_self)
  qed
  show ?thesis
    using accept [of short_password] spec out small by simp
qed

theorem valid_block_digit_string_witness:
  "length (ascii ''133617'') = 6 \<and>
   fst (valid_block (Some (ascii ''133617'')) 1 (Some 0)) = TRUE \<and>
   snd (valid_block (Some (ascii ''133617'')) 1 (Some 0)) = Some 12147 \<and>
   block_value (ascii ''133617'') = 133617 \<and>
   spec_check_digit (ascii ''133617'') = 7"
proof -
  have l: "length (ascii ''133617'') = 6"
    by (simp add: ascii_def)
  have d: "\<forall>c\<in>set (ascii ''133617''). isdigit c"
    by (simp add: isdigit_def ascii_def)
  have v: "block_value (ascii ''133617'') = 133617"
    by (simp add: block_value_def digit_value_def ascii_def)
  have n: "digit_value (ascii ''133617'' ! 0) - digit_value (ascii ''133617'' ! 1)
      + digit_value (ascii ''133617'' ! 2) - digit_value (ascii ''133617'' ! 3)
      + digit_value (ascii ''133617'' ! 4) = - 4"
    "digit_value (ascii ''133617'' ! 5) = 7"
    by (simp_all add: digit_value_def ascii_def)
  show ?thesis
    using valid_block_digit_string [OF l d, of 1 "Some 0" 0] l v n by simp
qed

section \<open>Blocks that are not digit strings\<close>

text \<open>
  Claim C3. The claim says that a block with a character that is not a digit is never
  accepted. \<open>strtol\<close> stops at such a character without an error, and only
  \<open>ERANGE\<close> is tested: the block \<open>aaaaa5\<close> reads as 0, passes the three checks and
  is accepted, alone and in each position of a password.
\<close>

theorem valid_block_accepts_letters:
  "valid_block (Some (ascii ''aaaaa5'')) 1 (Some 7) = (TRUE, Some 0) \<and>
   \<not> isdigit (ascii ''aaaaa5'' ! 0) \<and>
   is_valid_key (Some (ascii ''aaaaa5-aaaaa5-aaaaa5-aaaaa5-aaaaa5-aaaaa5-aaaaa5-aaaaa5''))
     (Some (replicate 8 7)) = (TRUE, Some (replicate 8 0))"
  by code_simp

text \<open>
  Claim C8. The claim says that the value stored for an accepted block is the block
  divided by 11 and fits in 16 bits. The block \<open>-121a2\<close> reads as -121, passes the
  three checks (only an upper bound is tested), and the quotient -11 is stored as 65525,
  also when the block comes first in a password given to \<open>is_valid_key\<close>.
\<close>

theorem valid_block_negative_block:
  "strtol (ascii ''-121a2'') = (- 121, False) \<and>
   (- 121 :: int) sdiv 11 = - 11 \<and>
   valid_block (Some (ascii ''-121a2'')) 1 (Some 0) = (TRUE, Some 65525) \<and>
   is_valid_key (Some (ascii ''-121a2-133617-133617-133617-133617-133617-133617-133617''))
     (Some (replicate 8 0)) =
     (TRUE, Some [65525, 12147, 12147, 12147, 12147, 12147, 12147, 12147])"
  by code_simp

section \<open>The length of the password\<close>

text \<open>
  Claim C7. A password whose length is not 55 is rejected for its length: the result
  is the wrong-length failure whatever the bytes are, and no entry of the short
  password is written.
\<close>

theorem is_valid_key_wrong_length:
  "strlen p \<noteq> 55 \<Longrightarrow> is_valid_key (Some p) (Some sp) = (FALSE WrongLength, Some sp)"
  by (simp add: is_valid_key_def)

theorem is_valid_key_wrong_length_witness:
  "strlen (ascii ''133617-133617-133617-133617-133617-133617-133617-13361'') \<noteq> 55 \<and>
   is_valid_key (Some (ascii ''133617-133617-133617-133617-133617-133617-133617-13361''))
     (Some (replicate 8 0)) = (FALSE WrongLength, Some (replicate 8 0)) \<and>
   strlen (ascii ''133617-133617-133617-133617-133617-133617-133617-1336170'') \<noteq> 55 \<and>
   is_valid_key (Some (ascii ''133617-133617-133617-133617-133617-133617-133617-1336170''))
     (Some (replicate 8 0)) = (FALSE WrongLength, Some (replicate 8 0))"
proof -
  have a: "strlen (ascii ''133617-133617-133617-133617-133617-133617-133617-13361'') \<noteq> 55"
    by code_simp
  have b: "strlen (ascii ''133617-133617-133617-133617-133617-133617-133617-1336170'') \<noteq> 55"
    by code_simp
  show ?thesis
    using a b is_valid_key_wrong_length [OF a, of "replicate 8 0"]
      is_valid_key_wrong_length [OF b, of "replicate 8 0"]
    by simp
qed

section \<open>Packing the short password\<close>

lemma bit_0xff: "bit (0x00ff :: u16) n \<longleftrightarrow> n < 8"
proof -
  have a: "bit (mask 8 :: u16) n \<longleftrightarrow> n < 8"
    by (auto simp: bit_mask_iff)
  have b: "(mask 8 :: u16) = 0x00ff"
    by (simp add: mask_eq_exp_minus_1)
  show ?thesis using a unfolding b .
qed

lemma low_byte: "(ucast ((w :: u16) AND 0x00ff) :: u8) = ucast w"
proof (rule bit_word_eqI)
  fix n
  assume "n < LENGTH(8)"
  then show "bit (ucast (w AND 0x00ff) :: u8) n \<longleftrightarrow> bit (ucast w :: u8) n"
    using bit_0xff [of n] by (auto simp: bit_simps)
qed

lemma high_byte: "(ucast (drop_bit 8 ((w :: u16) AND 0xff00)) :: u8) = ucast (drop_bit 8 w)"
proof (rule bit_word_eqI)
  fix n
  assume "n < LENGTH(8)"
  then show "bit (ucast (drop_bit 8 (w AND 0xff00)) :: u8) n \<longleftrightarrow>
             bit (ucast (drop_bit 8 w) :: u8) n"
    using bit_0xff [of n] by (auto simp: bit_simps)
qed

lemma join_bytes: "ucast (ucast w :: u8) OR push_bit 8 (ucast (ucast (drop_bit 8 w) :: u8)) = (w :: u16)"
  by (rule bit_word_eqI) (auto simp: bit_simps)

lemma split_low: "(ucast (ucast (lo :: u8) OR push_bit 8 (ucast (hi :: u8)) :: u16) :: u8) = lo"
  by (rule bit_word_eqI) (auto simp: bit_simps)

lemma split_high: "(ucast (drop_bit 8 (ucast (lo :: u8) OR push_bit 8 (ucast (hi :: u8)) :: u16)) :: u8) = hi"
  by (rule bit_word_eqI) (auto simp: bit_simps dest: bit_imp_le_length)

lemma distill_rounds:
  assumes "2 * n \<le> length buf"
  shows "length (fold (distill_round x) [0..<n] buf) = length buf \<and>
         (\<forall>i<n. fold (distill_round x) [0..<n] buf ! (2 * i) = ucast (x ! i) \<and>
                fold (distill_round x) [0..<n] buf ! (2 * i + 1) = ucast (drop_bit 8 (x ! i))) \<and>
         (\<forall>j\<ge>2 * n. fold (distill_round x) [0..<n] buf ! j = buf ! j)"
  using assms
proof (induction n)
  case 0
  then show ?case by simp
next
  case (Suc n)
  define b where "b = fold (distill_round x) [0..<n] buf"
  have ih: "length b = length buf"
    "\<And>i. i < n \<Longrightarrow> b ! (2 * i) = ucast (x ! i) \<and> b ! (2 * i + 1) = ucast (drop_bit 8 (x ! i))"
    "\<And>j. 2 * n \<le> j \<Longrightarrow> b ! j = buf ! j"
    using Suc unfolding b_def by auto
  have step: "fold (distill_round x) [0..<Suc n] buf = distill_round x n b"
    by (simp add: b_def)
  have len: "2 * n + 1 < length b" using Suc.prems ih(1) by simp
  have "length (distill_round x n b) = length buf"
    by (simp add: distill_round_def ih(1))
  moreover have "distill_round x n b ! (2 * i) = ucast (x ! i) \<and>
      distill_round x n b ! (2 * i + 1) = ucast (drop_bit 8 (x ! i))" if "i < Suc n" for i
  proof (cases "i = n")
    case True
    then show ?thesis using len
      by (simp add: distill_round_def low_byte high_byte)
  next
    case False
    then have "i < n" using that by simp
    then show ?thesis using ih(2) [of i]
      by (simp add: distill_round_def)
  qed
  moreover have "distill_round x n b ! j = buf ! j" if "2 * Suc n \<le> j" for j
    using that ih(3) [of j] by (simp add: distill_round_def)
  ultimately show ?case unfolding step by blast
qed

lemma distill_fold: "distill x buf = fold (distill_round x) [0..<8] buf"
  by (simp add: distill_def)

lemma undistill_distill:
  assumes "length x = 8" and "16 \<le> length buf"
  shows "undistill (distill x buf) = x \<and>
         (\<forall>i<8. distill x buf ! (2 * i) = ucast (x ! i) \<and>
                distill x buf ! (2 * i + 1) = ucast (drop_bit 8 (x ! i))) \<and>
         length (distill x buf) = length buf \<and>
         drop 16 (distill x buf) = drop 16 buf"
proof -
  have r: "length (distill x buf) = length buf"
    "\<And>i. i < 8 \<Longrightarrow> distill x buf ! (2 * i) = ucast (x ! i) \<and>
                distill x buf ! (2 * i + 1) = ucast (drop_bit 8 (x ! i))"
    "\<And>j. 16 \<le> j \<Longrightarrow> distill x buf ! j = buf ! j"
    using distill_rounds [of 8 buf x] assms(2) unfolding distill_fold by auto
  have "undistill (distill x buf) = x"
  proof (rule nth_equalityI)
    show "length (undistill (distill x buf)) = length x"
      by (simp add: undistill_def assms(1))
  next
    fix i assume "i < length (undistill (distill x buf))"
    then have i: "i < 8" by (simp add: undistill_def)
    have "undistill (distill x buf) ! i =
            ucast (distill x buf ! (2 * i)) OR push_bit 8 (ucast (distill x buf ! (2 * i + 1)))"
      using i unfolding undistill_def by (subst nth_map_upt) simp_all
    then show "undistill (distill x buf) ! i = x ! i"
      using r(2) [OF i] by (simp add: join_bytes)
  qed
  moreover have "drop 16 (distill x buf) = drop 16 buf"
    by (rule nth_equalityI) (simp_all add: r)
  ultimately show ?thesis using r by simp
qed

lemma distill_of_undistill:
  assumes "length b = 16" and "16 \<le> length buf"
  shows "take 16 (distill (undistill b) buf) = b"
proof (rule nth_equalityI)
  have lx: "length (undistill b) = 8" by (simp add: undistill_def)
  note d = undistill_distill [OF lx assms(2)]
  show "length (take 16 (distill (undistill b) buf)) = length b"
    using d assms by simp
  fix j assume "j < length (take 16 (distill (undistill b) buf))"
  then have j: "j < 16" by simp
  define i where "i = j div 2"
  have i: "i < 8" using j by (simp add: i_def)
  have ui: "undistill b ! i = ucast (b ! (2 * i)) OR push_bit 8 (ucast (b ! (2 * i + 1)))"
    using i unfolding undistill_def by (subst nth_map_upt) simp_all
  have di: "distill (undistill b) buf ! (2 * i) = b ! (2 * i)"
    "distill (undistill b) buf ! (2 * i + 1) = b ! (2 * i + 1)"
    using d i by (simp_all only: ui split_low split_high)
  have "j = 2 * i \<or> j = 2 * i + 1" unfolding i_def by presburger
  then show "take 16 (distill (undistill b) buf) ! j = b ! j"
    using di j by auto
qed

text \<open>
  Claim C4. Packing writes, for each of the eight entries, its low byte at offset
  \<open>2 * i\<close> and its high byte at \<open>2 * i + 1\<close>, and leaves the rest of the buffer
  alone; \<open>undistill\<close> inverts it on every array of eight entries, and every 16 bytes
  are the packing of their \<open>undistill\<close>: a bijection.
\<close>

theorem distill_bijection:
  assumes "length x = 8" and "length b = 16" and "16 \<le> length buf"
  shows "undistill (distill x buf) = x \<and>
         take 16 (distill (undistill b) buf) = b \<and>
         (\<forall>i<8. distill x buf ! (2 * i) = ucast (x ! i) \<and>
                distill x buf ! (2 * i + 1) = ucast (drop_bit 8 (x ! i))) \<and>
         length (undistill b) = 8 \<and>
         length (distill x buf) = length buf \<and>
         drop 16 (distill x buf) = drop 16 buf"
  using undistill_distill [OF assms(1,3)] distill_of_undistill [OF assms(2,3)]
  by (simp add: undistill_def)

theorem distill_bijection_witness:
  "undistill (distill [0x1234, 0xabcd, 1, 2, 3, 4, 5, 0xffff] (replicate 32 0)) =
     [0x1234, 0xabcd, 1, 2, 3, 4, 5, 0xffff] \<and>
   take 16 (distill (undistill [1, 2, 3, 4, 5, 6, 7, 8, 9, 10, 11, 12, 13, 14, 15, 16])
     (replicate 32 0)) = [1, 2, 3, 4, 5, 6, 7, 8, 9, 10, 11, 12, 13, 14, 15, 16] \<and>
   take 16 (distill [0x1234, 0xabcd, 1, 2, 3, 4, 5, 0xffff] (replicate 32 0)) =
     [0x34, 0x12, 0xcd, 0xab, 1, 0, 2, 0, 3, 0, 4, 0, 5, 0, 0xff, 0xff]"
proof -
  have e: "take 16 (distill [0x1234, 0xabcd, 1, 2, 3, 4, 5, 0xffff] (replicate 32 0)) =
     [0x34, 0x12, 0xcd, 0xab, 1, 0, 2, 0, 3, 0, 4, 0, 5, 0, 0xff, 0xff]"
    by code_simp
  show ?thesis
    using e distill_bijection [of "[0x1234, 0xabcd, 1, 2, 3, 4, 5, 0xffff]"
        "[1, 2, 3, 4, 5, 6, 7, 8, 9, 10, 11, 12, 13, 14, 15, 16]" "replicate 32 0"]
    by simp
qed

section \<open>The chain hash runs 0x100000 rounds\<close>

lemma chain_hash_loop_funpow:
  "loop \<le> 0x100000 \<Longrightarrow>
     chain_hash_loop sha256 bytes_of loop ch =
       (chain_hash_round sha256 bytes_of ^^ (0x100000 - loop)) ch"
proof (induction sha256 bytes_of loop ch rule: chain_hash_loop.induct)
  case (1 sha256 bytes_of loop ch)
  show ?case
  proof (cases "loop < 0x100000")
    case True
    have "chain_hash_loop sha256 bytes_of loop ch =
            chain_hash_loop sha256 bytes_of (loop + 1) (chain_hash_round sha256 bytes_of ch)"
      using True by (subst chain_hash_loop.simps) simp
    also have "\<dots> = (chain_hash_round sha256 bytes_of ^^ (0x100000 - (loop + 1)))
                        (chain_hash_round sha256 bytes_of ch)"
      using "1.IH" [OF True] True by simp
    also have "\<dots> = (chain_hash_round sha256 bytes_of ^^ Suc (0x100000 - (loop + 1))) ch"
      by (simp only: funpow_Suc_right o_apply)
    also have "Suc (0x100000 - (loop + 1)) = 0x100000 - loop"
      using True by simp
    finally show ?thesis .
  next
    case False
    then have "loop = 0x100000" using "1.prems" by simp
    then show ?thesis by (subst chain_hash_loop.simps) simp
  qed
qed

lemma hash_count_funpow:
  "hash_count ((chain_hash_round sha256 bytes_of ^^ n) ch) = hash_count ch + of_nat n"
  by (induction n) (simp_all add: chain_hash_round_def)

lemma funpow_pred: "0 < n \<Longrightarrow> (f ^^ n) x = f ((f ^^ (n - 1)) x)"
  by (cases n) simp_all

lemma fields_funpow:
  "salt ((chain_hash_round sha256 bytes_of ^^ n) ch) = salt ch \<and>
   password_hash ((chain_hash_round sha256 bytes_of ^^ n) ch) = password_hash ch"
  by (induction n) (simp_all add: chain_hash_round_def)

lemma chain_hash_result:
  "chain_hash sha256 bytes_of recovery_key salt' result =
     (TRUE, take 32 (updated_hash ((chain_hash_round sha256 bytes_of ^^ 1048576)
              (chain_hash_init sha256 recovery_key salt'))) @ drop 32 result)"
  using chain_hash_loop_funpow [of 0 sha256 bytes_of]
  by (simp add: chain_hash_def memcpy_def)

text \<open>
  Claim C2. \<open>chain_hash\<close> starts from the structure that holds zeros in
  \<open>updated_hash\<close>, the hash of the first 16 bytes of the distilled key in
  \<open>password_hash\<close>, the first 16 bytes of the salt, and the counter 0. Each round sets
  \<open>updated_hash\<close> to the hash of the whole structure and adds one to the 64-bit
  counter, leaving \<open>password_hash\<close> and \<open>salt\<close> alone, so that every round hashes
  them. For every input the function returns \<open>TRUE\<close> and the result buffer holds, in
  its first 32 bytes, the \<open>updated_hash\<close> after exactly 1048576 rounds (the counter then
  holds 1048576), that is, the digest computed by the last round; the bytes of the buffer
  beyond the 32nd are as before. With a hash function of 32-byte digests these 32 bytes
  are the whole of the final \<open>updated_hash\<close>.
\<close>

theorem chain_hash_iterations:
  "chain_hash sha256 bytes_of recovery_key salt' result =
     (TRUE, memcpy result
        (updated_hash ((chain_hash_round sha256 bytes_of ^^ 1048576)
           (chain_hash_init sha256 recovery_key salt'))) 32) \<and>
   snd (chain_hash sha256 bytes_of recovery_key salt' result) =
     take 32 (updated_hash ((chain_hash_round sha256 bytes_of ^^ 1048576)
        (chain_hash_init sha256 recovery_key salt'))) @ drop 32 result \<and>
   ((\<forall>x. length (sha256 x) = 32) \<longrightarrow>
      take 32 (snd (chain_hash sha256 bytes_of recovery_key salt' result)) =
        updated_hash ((chain_hash_round sha256 bytes_of ^^ 1048576)
          (chain_hash_init sha256 recovery_key salt')) \<and>
      drop 32 (snd (chain_hash sha256 bytes_of recovery_key salt' result)) = drop 32 result \<and>
      length (take 32 (snd (chain_hash sha256 bytes_of recovery_key salt' result))) = 32) \<and>
   chain_hash_init sha256 recovery_key salt' =
     \<lparr>updated_hash = replicate 32 0,
      password_hash = sha256 (take 16 recovery_key),
      salt = take 16 salt',
      hash_count = 0\<rparr> \<and>
   chain_hash_round sha256 bytes_of ch =
     ch\<lparr>updated_hash := sha256 (bytes_of ch), hash_count := hash_count ch + 1\<rparr> \<and>
   salt ((chain_hash_round sha256 bytes_of ^^ n)
      (chain_hash_init sha256 recovery_key salt')) = take 16 salt' \<and>
   password_hash ((chain_hash_round sha256 bytes_of ^^ n)
      (chain_hash_init sha256 recovery_key salt')) = sha256 (take 16 recovery_key) \<and>
   hash_count ((chain_hash_round sha256 bytes_of ^^ n)
      (chain_hash_init sha256 recovery_key salt')) = of_nat n \<and>
   hash_count ((chain_hash_round sha256 bytes_of ^^ 1048576)
      (chain_hash_init sha256 recovery_key salt')) = 1048576 \<and>
   updated_hash ((chain_hash_round sha256 bytes_of ^^ 1048576)
      (chain_hash_init sha256 recovery_key salt')) =
     sha256 (bytes_of ((chain_hash_round sha256 bytes_of ^^ 1048575)
      (chain_hash_init sha256 recovery_key salt')))"
proof -
  let ?init = "chain_hash_init sha256 recovery_key salt'"
  let ?final = "(chain_hash_round sha256 bytes_of ^^ 1048576) ?init"
  have last: "?final = chain_hash_round sha256 bytes_of
        ((chain_hash_round sha256 bytes_of ^^ 1048575) ?init)"
    using funpow_pred [of 1048576 "chain_hash_round sha256 bytes_of"] by simp
  have round: "chain_hash_round sha256 bytes_of c =
      c\<lparr>updated_hash := sha256 (bytes_of c), hash_count := hash_count c + 1\<rparr>" for c
    by (simp add: chain_hash_round_def)
  have init: "?init = \<lparr>updated_hash = replicate 32 0,
      password_hash = sha256 (take 16 recovery_key),
      salt = take 16 salt', hash_count = 0\<rparr>"
    by (simp add: chain_hash_init_def memcpy_def)
  have fields: "salt ((chain_hash_round sha256 bytes_of ^^ n) ?init) = take 16 salt'"
    "password_hash ((chain_hash_round sha256 bytes_of ^^ n) ?init) = sha256 (take 16 recovery_key)"
    "hash_count ((chain_hash_round sha256 bytes_of ^^ n) ?init) = of_nat n" for n
    by (simp_all add: fields_funpow hash_count_funpow init)
  have cnt: "hash_count ?final = 1048576"
    using fields(3) [of 1048576] by simp
  have res: "chain_hash sha256 bytes_of recovery_key salt' result = (TRUE, memcpy result (updated_hash ?final) 32)"
    using chain_hash_result [of sha256 bytes_of recovery_key salt' result]
    by (simp add: memcpy_def)
  have res2: "snd (chain_hash sha256 bytes_of recovery_key salt' result) =
      take 32 (updated_hash ?final) @ drop 32 result"
    by (simp add: chain_hash_result)
  have fin: "updated_hash ?final =
     sha256 (bytes_of ((chain_hash_round sha256 bytes_of ^^ 1048575) ?init))"
    unfolding last by (simp add: round)
  have sized: "(\<forall>x. length (sha256 x) = 32) \<longrightarrow>
      take 32 (snd (chain_hash sha256 bytes_of recovery_key salt' result)) =
        updated_hash ?final \<and>
      drop 32 (snd (chain_hash sha256 bytes_of recovery_key salt' result)) = drop 32 result \<and>
      length (take 32 (snd (chain_hash sha256 bytes_of recovery_key salt' result))) = 32"
  proof
    assume "\<forall>x. length (sha256 x) = 32"
    then have "length (updated_hash ?final) = 32" unfolding fin by simp
    then show "take 32 (snd (chain_hash sha256 bytes_of recovery_key salt' result)) =
        updated_hash ?final \<and>
      drop 32 (snd (chain_hash sha256 bytes_of recovery_key salt' result)) = drop 32 result \<and>
      length (take 32 (snd (chain_hash sha256 bytes_of recovery_key salt' result))) = 32"
      unfolding res2 by simp
  qed
  from res res2 sized init round [of ch] fields [of n] cnt fin show ?thesis
    by (intro conjI)
qed

theorem chain_hash_iterations_witness:
  "(\<forall>x. length ((\<lambda>x. replicate 32 (1 :: u8)) x) = 32) \<and>
   chain_hash (\<lambda>x. replicate 32 1) (\<lambda>c. []) [] [] (replicate 32 0 @ [7]) =
     (TRUE, replicate 32 1 @ [7])"
proof -
  note t = chain_hash_iterations [of "\<lambda>x. replicate 32 (1 :: u8)" "\<lambda>c. []" "[]" "[]"
      "replicate 32 0 @ [7]" "chain_hash_init (\<lambda>x. replicate 32 1) [] []" 0]
  have u: "updated_hash ((chain_hash_round (\<lambda>x. replicate 32 (1 :: u8)) (\<lambda>c. []) ^^ 1048576)
      (chain_hash_init (\<lambda>x. replicate 32 1) [] [])) = replicate 32 1"
    using t by - (elim conjE, assumption)
  have r: "snd (chain_hash (\<lambda>x. replicate 32 1) (\<lambda>c. []) [] [] (replicate 32 0 @ [7])) =
      take 32 (updated_hash ((chain_hash_round (\<lambda>x. replicate 32 (1 :: u8)) (\<lambda>c. []) ^^ 1048576)
        (chain_hash_init (\<lambda>x. replicate 32 1) [] []))) @ drop 32 (replicate 32 0 @ [7])"
    using t by - (elim conjE, assumption)
  have f: "chain_hash (\<lambda>x. replicate 32 1) (\<lambda>c. []) [] [] (replicate 32 0 @ [7]) =
     (TRUE, memcpy (replicate 32 0 @ [7])
        (updated_hash ((chain_hash_round (\<lambda>x. replicate 32 (1 :: u8)) (\<lambda>c. []) ^^ 1048576)
           (chain_hash_init (\<lambda>x. replicate 32 1) [] []))) 32)"
    using t by - (elim conjE, assumption)
  have "snd (chain_hash (\<lambda>x. replicate 32 1) (\<lambda>c. []) [] [] (replicate 32 0 @ [7])) =
      replicate 32 1 @ [7]"
    unfolding r u by simp
  moreover have "fst (chain_hash (\<lambda>x. replicate 32 1) (\<lambda>c. []) [] [] (replicate 32 0 @ [7])) = TRUE"
    unfolding f by simp
  ultimately show ?thesis
    by (cases "chain_hash (\<lambda>x. replicate 32 1) (\<lambda>c. []) [] [] (replicate 32 0 @ [7])") simp
qed


section \<open>Failures of the intermediate key\<close>

text \<open>
  Claim C9. When \<open>intermediate_key\<close> does not return \<open>TRUE\<close> (a \<open>NULL\<close> argument
  or a password that is not valid), the buffer \<open>result_key\<close> is as it was before the
  call.
\<close>

theorem intermediate_key_failure:
  "fst (intermediate_key sha256 bytes_of recovery_password salt' result_key) \<noteq> TRUE \<Longrightarrow>
   snd (intermediate_key sha256 bytes_of recovery_password salt' result_key) = result_key"
  by (auto simp: intermediate_key_def Let_def split: option.splits prod.splits status.splits)

theorem intermediate_key_failure_witness:
  "fst (intermediate_key (\<lambda>x. []) (\<lambda>c. []) (Some (ascii ''133617'')) [] (Some [1, 2, 3])) \<noteq> TRUE \<and>
   snd (intermediate_key (\<lambda>x. []) (\<lambda>c. []) (Some (ascii ''133617'')) [] (Some [1, 2, 3])) = Some [1, 2, 3]"
proof -
  have a: "fst (intermediate_key (\<lambda>x. []) (\<lambda>c. []) (Some (ascii ''133617'')) [] (Some [1, 2, 3])) \<noteq> TRUE"
    by (simp add: intermediate_key_def is_valid_key_def strlen_def ascii_def)
  show ?thesis
    using a intermediate_key_failure [OF a] by simp
qed

section \<open>The loop over the eight blocks\<close>

lemma valid_block_fst_cell:
  "fst (valid_block d nb sp) = fst (valid_block d nb sp')"
  by (simp add: valid_block_def Let_def split: option.splits prod.splits)

lemma valid_block_accepted:
  "fst (valid_block (Some d) nb sp) = TRUE \<longleftrightarrow> block_accepted d"
  by (simp add: block_accepted_def valid_block_def Let_def split: option.splits prod.splits)

lemma is_valid_key_loop_step:
  assumes "loop < 8"
  shows "is_valid_key_loop p loop sp =
     (case valid_block (Some (block_at p loop)) (int loop + 1) (Some (sp ! loop)) of
        (FALSE e, _) \<Rightarrow> (FALSE (BlockInvalid e), sp)
      | (TRUE, cell) \<Rightarrow>
          is_valid_key_loop p (Suc loop) (case cell of None \<Rightarrow> sp | Some v \<Rightarrow> sp[loop := v]))"
  using assms by (subst is_valid_key_loop.simps)
    (simp add: block_at_def Let_def split: prod.splits status.splits)

lemma is_valid_key_loop_done:
  "\<not> loop < 8 \<Longrightarrow> is_valid_key_loop p loop sp = (TRUE, sp)"
  by (subst is_valid_key_loop.simps) simp

lemma is_valid_key_loop_accepts:
  "fst (is_valid_key_loop p loop sp) = TRUE \<longleftrightarrow>
     (\<forall>i. loop \<le> i \<and> i < 8 \<longrightarrow> block_accepted (block_at p i))"
proof (induction "8 - loop" arbitrary: loop sp)
  case 0
  then show ?case by (auto simp: is_valid_key_loop_done)
next
  case (Suc n)
  then have lt: "loop < 8" by simp
  have ih: "fst (is_valid_key_loop p (Suc loop) sp') = TRUE \<longleftrightarrow>
     (\<forall>i. Suc loop \<le> i \<and> i < 8 \<longrightarrow> block_accepted (block_at p i))" for sp'
    using Suc.hyps(1) [of "Suc loop" sp'] Suc.hyps(2) by simp
  have split: "(\<forall>i. loop \<le> i \<and> i < 8 \<longrightarrow> block_accepted (block_at p i)) \<longleftrightarrow>
     block_accepted (block_at p loop) \<and>
     (\<forall>i. Suc loop \<le> i \<and> i < 8 \<longrightarrow> block_accepted (block_at p i))"
    using lt by (auto simp: Suc_le_eq elim: le_neq_trans [rotated] dest: le_neq_implies_less)
  obtain r cell where v: "valid_block (Some (block_at p loop)) (int loop + 1) (Some (sp ! loop)) = (r, cell)"
    by (cases "valid_block (Some (block_at p loop)) (int loop + 1) (Some (sp ! loop))")
  have acc: "block_accepted (block_at p loop) \<longleftrightarrow> r = TRUE"
    using valid_block_accepted [of "block_at p loop" "int loop + 1" "Some (sp ! loop)"] v by simp
  show ?case
    unfolding split is_valid_key_loop_step [OF lt] v acc
    by (cases r) (simp_all add: ih)
qed

lemma is_valid_key_loop_blocks:
  assumes "\<forall>i<8. block_at p i = block_at q i"
  shows "is_valid_key_loop p loop sp = is_valid_key_loop q loop sp"
proof (induction "8 - loop" arbitrary: loop sp)
  case 0
  then show ?case by (simp add: is_valid_key_loop_done)
next
  case (Suc n)
  then have lt: "loop < 8" by simp
  have ih: "is_valid_key_loop p (Suc loop) sp' = is_valid_key_loop q (Suc loop) sp'" for sp'
    using Suc.hyps(1) [of "Suc loop" sp'] Suc.hyps(2) by simp
  show ?case
    unfolding is_valid_key_loop_step [OF lt] using assms lt
    by (simp add: ih split: prod.splits status.splits)
qed

lemma strlen_le: "strlen s \<le> length s"
  by (simp add: strlen_def length_takeWhile_le)

lemma strlen_nonzero: "i < strlen s \<Longrightarrow> s ! i \<noteq> 0"
proof -
  assume a: "i < strlen s"
  then have "takeWhile (\<lambda>c. c \<noteq> 0) s ! i \<in> set (takeWhile (\<lambda>c. c \<noteq> 0) s)"
    unfolding strlen_def by (rule nth_mem)
  then have "takeWhile (\<lambda>c. c \<noteq> 0) s ! i \<noteq> 0"
    by (auto dest: set_takeWhileD)
  then show ?thesis
    using a by (simp add: strlen_def takeWhile_nth)
qed

lemma strlen_terminator: "strlen s < length s \<Longrightarrow> s ! strlen s = 0"
  unfolding strlen_def using nth_length_takeWhile [of "\<lambda>c. c \<noteq> 0" s] by simp

lemma strlen_eqI:
  assumes "n \<le> length s" and "\<And>i. i < n \<Longrightarrow> s ! i \<noteq> 0" and "n < length s \<Longrightarrow> s ! n = 0"
  shows "strlen s = n"
proof -
  have "takeWhile (\<lambda>c. c \<noteq> 0) s = take n s"
    using assms by (intro takeWhile_eq_take_P_nth) auto
  then show ?thesis using assms(1) by (simp add: strlen_def)
qed

lemma strlen_update:
  assumes "i < strlen s" and "c \<noteq> 0"
  shows "strlen (s[i := c]) = strlen s"
proof (rule strlen_eqI)
  show "strlen s \<le> length (s[i := c])" by (simp add: strlen_le)
next
  fix j assume "j < strlen s"
  then show "s[i := c] ! j \<noteq> 0"
    using assms strlen_le [of s] strlen_nonzero [of j s] by (simp add: nth_list_update)
next
  assume "strlen s < length (s[i := c])"
  then show "s[i := c] ! strlen s = 0"
    using assms(1) strlen_terminator [of s] by simp
qed

lemma block_at_update_other:
  assumes "i < 7 * k \<or> 7 * k + 6 \<le> i"
  shows "block_at (p[i := c]) k = block_at p k"
proof (cases "i < 7 * k")
  case True
  then show ?thesis by (simp add: block_at_def drop_update_cancel)
next
  case False
  then have "6 \<le> i - 7 * k" using assms by simp
  then show ?thesis using False
    by (simp add: block_at_def drop_update_swap take_update_cancel)
qed

lemma block_at_update_same:
  assumes "j < 6"
  shows "block_at (p[7 * k + j := c]) k = (block_at p k)[j := c]"
  using assms by (simp add: block_at_def drop_update_swap take_update_swap)

lemma is_valid_key_accepts:
  "fst (is_valid_key (Some p) (Some sp)) = TRUE \<longleftrightarrow>
     strlen p = 55 \<and> (\<forall>k<8. block_accepted (block_at p k))"
  using is_valid_key_loop_accepts [of p 0 sp]
  by (cases "is_valid_key_loop p 0 sp") (auto simp: is_valid_key_def)

text \<open>
  Claim C10. For a password of length 55, \<open>is_valid_key\<close> returns \<open>TRUE\<close> exactly
  when each of the eight groups of six bytes at the offsets 0, 7, ..., 49 is accepted
  by \<open>valid_block\<close>; the bytes at the positions 6, 13, ..., 48 are not read: putting
  any byte but NUL there changes neither the result nor the short password.
\<close>

theorem is_valid_key_ignores_separators:
  assumes "strlen p = 55"
  shows "(fst (is_valid_key (Some p) (Some sp)) = TRUE \<longleftrightarrow>
            (\<forall>k<8. block_accepted (block_at p k))) \<and>
         (\<forall>i c. i < 55 \<and> i mod 7 = 6 \<and> c \<noteq> 0 \<longrightarrow>
            is_valid_key (Some (p[i := c])) (Some sp) = is_valid_key (Some p) (Some sp))"
proof -
  have "is_valid_key (Some (p[i := c])) (Some sp) = is_valid_key (Some p) (Some sp)"
    if i: "i < 55" "i mod 7 = 6" and c: "c \<noteq> 0" for i c
  proof -
    have len: "strlen (p[i := c]) = 55"
      using strlen_update [of i p c] assms i(1) c by simp
    have "block_at (p[i := c]) k = block_at p k" for k
    proof (rule block_at_update_other)
      show "i < 7 * k \<or> 7 * k + 6 \<le> i" using i(2) by presburger
    qed
    then have "is_valid_key_loop (p[i := c]) 0 sp = is_valid_key_loop p 0 sp"
      by (intro is_valid_key_loop_blocks) simp
    then show ?thesis
      by (simp add: is_valid_key_def len assms)
  qed
  then show ?thesis
    using is_valid_key_accepts [of p sp] assms by simp
qed

theorem is_valid_key_ignores_separators_witness:
  "strlen (ascii ''133617x133617 133617y133617+1336170133617-133617z133617'') = 55 \<and>
   is_valid_key (Some (ascii ''133617x133617 133617y133617+1336170133617-133617z133617''))
     (Some (replicate 8 0)) = (TRUE, Some (replicate 8 12147)) \<and>
   is_valid_key (Some ((ascii ''133617-133617-133617-133617-133617-133617-133617-133617'')[6 := 120]))
     (Some (replicate 8 0)) = (TRUE, Some (replicate 8 12147))"
proof -
  have a: "strlen (ascii ''133617-133617-133617-133617-133617-133617-133617-133617'') = 55"
    by code_simp
  have b: "is_valid_key (Some (ascii ''133617-133617-133617-133617-133617-133617-133617-133617''))
     (Some (replicate 8 0)) = (TRUE, Some (replicate 8 12147))"
    by code_simp
  have c: "strlen (ascii ''133617x133617 133617y133617+1336170133617-133617z133617'') = 55 \<and>
   is_valid_key (Some (ascii ''133617x133617 133617y133617+1336170133617-133617z133617''))
     (Some (replicate 8 0)) = (TRUE, Some (replicate 8 12147))"
    by code_simp
  show ?thesis
    using is_valid_key_ignores_separators [OF a, of "replicate 8 0"] b c by simp
qed

section \<open>One wrong digit\<close>

lemma coprime_11_10: "coprime (11::int) 10"
  by (simp add: coprime_iff_gcd_eq_1 gcd_red_int [of 11 10] gcd_red_int [of 10 1])

lemma dvd_11_times_power_10: "11 dvd (x::int) * 10 ^ n \<Longrightarrow> 11 dvd x"
  using coprime_11_10 by (simp add: coprime_dvd_mult_left_iff)

lemma single_digit_change:
  assumes "length d = 6" and "\<forall>c\<in>set d. isdigit c" and "j < 6"
    and "isdigit c" and "c \<noteq> d ! j" and "block_value d mod 11 = 0"
  shows "block_value (d[j := c]) mod 11 \<noteq> 0"
proof
  assume z: "block_value (d[j := c]) mod 11 = 0"
  obtain c0 c1 c2 c3 c4 c5 where d: "d = [c0, c1, c2, c3, c4, c5]"
    using assms(1) by (rule length_6_cases)
  define \<delta> where "\<delta> = uint c - uint (d ! j)"
  have "uint c \<noteq> uint (d ! j)"
    using assms(5) by (simp add: word_uint_eq_iff)
  moreover have "isdigit (d ! j)"
    using assms(1,2,3) by simp
  ultimately have \<delta>: "\<delta> \<noteq> 0" "- 9 \<le> \<delta>" "\<delta> \<le> 9"
    using assms(4) by (auto simp: \<delta>_def isdigit_uint)
  define m :: int where "m = 10 ^ (5 - j)"
  have j: "j = 0 \<or> j = 1 \<or> j = 2 \<or> j = 3 \<or> j = 4 \<or> j = 5"
    using assms(3) by auto
  have m: "block_value (d[j := c]) - block_value d = \<delta> * m"
    using j by (elim disjE)
      (simp_all add: d \<delta>_def m_def block_value_def digit_value_def algebra_simps)
  have "11 dvd block_value (d[j := c]) - block_value d"
    using z assms(6) by (intro dvd_diff) (simp_all add: dvd_eq_mod_eq_0)
  then have "11 dvd \<delta> * 10 ^ (5 - j)" by (simp only: m m_def)
  then have "11 dvd \<delta>" by (rule dvd_11_times_power_10)
  then show False
    using \<delta> by presburger
qed

lemma valid_block_accepted_result:
  assumes "block_accepted d"
  shows "valid_block (Some d) nb (Some v) = (TRUE, Some (short_value d))"
proof -
  have "fst (valid_block (Some d) nb (Some v)) = TRUE"
    using assms by (simp add: valid_block_accepted)
  then show ?thesis
    by (cases "strtol d")
      (auto simp: valid_block_def short_value_def Let_def split: if_splits)
qed

lemma is_valid_key_loop_run:
  assumes "lo \<le> k" and "k \<le> 8"
    and "\<forall>i. lo \<le> i \<and> i < k \<longrightarrow> block_accepted (block_at p i)"
  shows "is_valid_key_loop p lo sp =
           is_valid_key_loop p k (fold (\<lambda>i s. s[i := short_value (block_at p i)]) [lo..<k] sp)"
  using assms(1,3)
proof (induction "k - lo" arbitrary: lo sp)
  case 0
  then show ?case by simp
next
  case (Suc n)
  then have lt: "lo < k" by simp
  then have lt8: "lo < 8" using assms(2) by simp
  have a: "block_accepted (block_at p lo)" using Suc.prems(2) lt by simp
  have ih: "is_valid_key_loop p (Suc lo) sp' =
      is_valid_key_loop p k (fold (\<lambda>i s. s[i := short_value (block_at p i)]) [Suc lo..<k] sp')" for sp'
    using Suc.hyps(1) [of "Suc lo" sp'] Suc.hyps(2) Suc.prems(2) lt by simp
  show ?case
    unfolding is_valid_key_loop_step [OF lt8] valid_block_accepted_result [OF a]
    using lt by (simp add: ih upt_conv_Cons)
qed

lemma stored_frame:
  "length (stored p k sp) = length sp \<and>
   (\<forall>i. k \<le> i \<longrightarrow> stored p k sp ! i = sp ! i) \<and>
   (\<forall>i<k. i < length sp \<longrightarrow> stored p k sp ! i = short_value (block_at p i))"
proof (induction k)
  case 0
  then show ?case by (simp add: stored_def)
next
  case (Suc k)
  have s: "stored p (Suc k) sp = (stored p k sp)[k := short_value (block_at p k)]"
    by (simp add: stored_def)
  show ?case
    unfolding s using Suc by (auto simp: nth_list_update less_Suc_eq)
qed

lemma stored_cong:
  "(\<And>i. i < k \<Longrightarrow> block_at p i = block_at q i) \<Longrightarrow> stored p k sp = stored q k sp"
  by (induction k) (simp_all add: stored_def)

lemma is_valid_key_rejects_at:
  assumes "strlen p = 55" and "k < 8"
    and "\<forall>i<k. block_accepted (block_at p i)"
    and "\<And>cell. fst (valid_block (Some (block_at p k)) (int k + 1) cell) = FALSE e"
  shows "is_valid_key (Some p) (Some sp) = (FALSE (BlockInvalid e), Some (stored p k sp))"
proof -
  have run: "is_valid_key_loop p 0 sp = is_valid_key_loop p k (stored p k sp)"
    unfolding stored_def using assms(2,3) by (intro is_valid_key_loop_run) simp_all
  obtain r cell where v: "valid_block (Some (block_at p k)) (int k + 1)
      (Some (stored p k sp ! k)) = (r, cell)"
    by (cases "valid_block (Some (block_at p k)) (int k + 1) (Some (stored p k sp ! k))")
  then have "r = FALSE e" using assms(4) [of "Some (stored p k sp ! k)"] by simp
  then have "is_valid_key_loop p k (stored p k sp) = (FALSE (BlockInvalid e), stored p k sp)"
    using v assms(2) by (simp add: is_valid_key_loop_step)
  then show ?thesis
    using run assms(1) by (simp add: is_valid_key_def)
qed

lemma is_valid_key_accepted_result:
  assumes "fst (is_valid_key (Some p) (Some sp)) = TRUE"
  shows "snd (is_valid_key (Some p) (Some sp)) = Some (stored p 8 sp)"
proof -
  have len: "strlen p = 55" and acc: "\<forall>i<8. block_accepted (block_at p i)"
    using assms by (simp_all add: is_valid_key_accepts)
  have "is_valid_key_loop p 0 sp = is_valid_key_loop p 8 (stored p 8 sp)"
    unfolding stored_def using acc by (intro is_valid_key_loop_run) simp_all
  then show ?thesis
    using len by (simp add: is_valid_key_def is_valid_key_loop_done)
qed

text \<open>
  Claim C5, as stated, fails where the changed digit stands at one of the positions
  between the blocks, which \<open>is_valid_key\<close> does not read: the password of 55 zeros is
  accepted, and so is the same password with the digit at position 6 changed to 1.
\<close>

theorem single_digit_error_at_separator:
  "fst (is_valid_key (Some (ascii ''0000000000000000000000000000000000000000000000000000000''))
     (Some (replicate 8 0))) = TRUE \<and>
   length (ascii ''0000000000000000000000000000000000000000000000000000000'') = 55 \<and>
   isdigit (ascii ''0000000000000000000000000000000000000000000000000000000'' ! 6) \<and>
   isdigit 49 \<and>
   49 \<noteq> ascii ''0000000000000000000000000000000000000000000000000000000'' ! 6 \<and>
   fst (is_valid_key
     (Some ((ascii ''0000000000000000000000000000000000000000000000000000000'')[6 := 49]))
     (Some (replicate 8 0))) = TRUE"
  by code_simp

text \<open>
  Claim C5, amended. Take a password that \<open>is_valid_key\<close> accepts, and one of its
  blocks that consists of six digits. Changing one digit of that block to another digit
  makes \<open>is_valid_key\<close> fail at that block, for the first check (the value is no
  longer divisible by 11); that block is the only one \<open>valid_block\<close> rejects. The
  validation stops there: the short password holds the values of the blocks before the
  changed one, as the accepted password stores them, and its entries from the changed
  block on are as they were before the call.
\<close>

theorem single_digit_error_detected:
  assumes "fst (is_valid_key (Some p) (Some sp)) = TRUE"
    and "k < 8" and "j < 6"
    and "\<forall>x\<in>set (block_at p k). isdigit x"
    and "isdigit c" and "c \<noteq> p ! (7 * k + j)"
  shows "fst (is_valid_key (Some (p[7 * k + j := c])) (Some sp)) =
           FALSE (BlockInvalid (NotDivisibleBy11 (int k + 1)
             (block_value (block_at (p[7 * k + j := c]) k)))) \<and>
         \<not> block_accepted (block_at (p[7 * k + j := c]) k) \<and>
         (\<forall>i<8. i \<noteq> k \<longrightarrow> block_accepted (block_at (p[7 * k + j := c]) i)) \<and>
         snd (is_valid_key (Some (p[7 * k + j := c])) (Some sp)) = Some (stored p k sp) \<and>
         snd (is_valid_key (Some p) (Some sp)) = Some (stored p 8 sp) \<and>
         length (stored p k sp) = length sp \<and>
         (\<forall>i. k \<le> i \<longrightarrow> stored p k sp ! i = sp ! i) \<and>
         (\<forall>i<k. i < length sp \<longrightarrow>
            stored p k sp ! i = short_value (block_at p i) \<and>
            stored p k sp ! i = stored p 8 sp ! i) \<and>
         (\<forall>i. k \<le> i \<longrightarrow>
            the (snd (is_valid_key (Some (p[7 * k + j := c])) (Some sp))) ! i = sp ! i)"
proof -
  define p' where "p' = p[7 * k + j := c]"
  define D where "D = block_at p k"
  have len: "strlen p = 55" and acc: "\<And>i. i < 8 \<Longrightarrow> block_accepted (block_at p i)"
    using assms(1) by (simp_all add: is_valid_key_accepts)
  have lp: "55 \<le> length p" using strlen_le [of p] len by simp
  have pos: "7 * k + j < 55" using assms(2,3) by simp
  have c0: "c \<noteq> 0" using assms(5) by (auto simp: isdigit_uint)
  have len': "strlen p' = 55"
    unfolding p'_def using strlen_update [of "7 * k + j" p c] len pos c0 by simp
  have other: "block_at p' i = block_at p i" if "i \<noteq> k" for i
    unfolding p'_def
  proof (rule block_at_update_other)
    show "7 * k + j < 7 * i \<or> 7 * i + 6 \<le> 7 * k + j"
      using that assms(3) by presburger
  qed
  have same: "block_at p' k = D[j := c]"
    unfolding p'_def D_def using assms(3) by (rule block_at_update_same)
  have lD: "length D = 6"
    using lp assms(2) by (simp add: D_def block_at_def)
  have Dj: "D ! j = p ! (7 * k + j)"
    using assms(3) lp assms(2) by (simp add: D_def block_at_def)
  have dD: "\<forall>x\<in>set D. isdigit x" using assms(4) by (simp add: D_def)
  have "fst (valid_block (Some D) 0 None) = TRUE"
    using acc [OF assms(2)] by (simp add: block_accepted_def D_def)
  then have m: "block_value D mod 11 = 0"
    unfolding valid_block_digits [OF lD dD] by (simp split: if_splits)
  have m': "block_value (D[j := c]) mod 11 \<noteq> 0"
    using lD dD assms(3,5) assms(6) [folded Dj] m by (rule single_digit_change)
  have lD': "length (D[j := c]) = 6" using lD by simp
  have dD': "\<forall>x\<in>set (D[j := c]). isdigit x"
    using dD assms(5) set_update_subset_insert [of D j c] by auto
  have rej: "fst (valid_block (Some (block_at p' k)) nb cell) =
      FALSE (NotDivisibleBy11 nb (block_value (block_at p' k)))" for nb cell
    unfolding same valid_block_digits [OF lD' dD'] using m' by simp
  have before: "\<forall>i<k. block_accepted (block_at p' i)"
    using other acc assms(2) by simp
  have "is_valid_key (Some p') (Some sp) =
      (FALSE (BlockInvalid (NotDivisibleBy11 (int k + 1) (block_value (block_at p' k)))),
       Some (stored p' k sp))"
    using len' assms(2) before rej by (rule is_valid_key_rejects_at)
  moreover have "stored p' k sp = stored p k sp"
    using other by (intro stored_cong) simp
  ultimately have res: "is_valid_key (Some p') (Some sp) =
      (FALSE (BlockInvalid (NotDivisibleBy11 (int k + 1) (block_value (block_at p' k)))),
       Some (stored p k sp))"
    by simp
  have r1: "fst (is_valid_key (Some p') (Some sp)) =
      FALSE (BlockInvalid (NotDivisibleBy11 (int k + 1) (block_value (block_at p' k))))"
    and r2: "snd (is_valid_key (Some p') (Some sp)) = Some (stored p k sp)"
    unfolding res by simp_all
  have r3: "\<not> block_accepted (block_at p' k)"
    using rej [of 0 None] by (simp add: block_accepted_def)
  have r4: "\<forall>i<8. i \<noteq> k \<longrightarrow> block_accepted (block_at p' i)"
    using other acc by simp
  have r5: "snd (is_valid_key (Some p) (Some sp)) = Some (stored p 8 sp)"
    using assms(1) by (rule is_valid_key_accepted_result)
  note fk = stored_frame [of p k sp]
  note f8 = stored_frame [of p 8 sp]
  have r6: "length (stored p k sp) = length sp"
    and r7: "\<forall>i. k \<le> i \<longrightarrow> stored p k sp ! i = sp ! i"
    using fk by simp_all
  have r8: "\<forall>i<k. i < length sp \<longrightarrow>
            stored p k sp ! i = short_value (block_at p i) \<and>
            stored p k sp ! i = stored p 8 sp ! i"
    using fk f8 assms(2) by auto
  have r9: "\<forall>i. k \<le> i \<longrightarrow> the (snd (is_valid_key (Some p') (Some sp))) ! i = sp ! i"
    unfolding r2 using r7 by simp
  from r1 r3 r4 r2 r5 r6 r7 r8 r9 show ?thesis
    unfolding p'_def by (intro conjI)
qed

theorem single_digit_error_detected_witness:
  "fst (is_valid_key (Some (ascii ''133617-133617-133617-133617-133617-133617-133617-133617''))
     (Some (replicate 8 9))) = TRUE \<and>
   is_valid_key
     (Some ((ascii ''133617-133617-133617-133617-133617-133617-133617-133617'')[7 * 2 + 3 := 57]))
     (Some (replicate 8 9)) =
     (FALSE (BlockInvalid (NotDivisibleBy11 3 133917)), Some [12147, 12147, 9, 9, 9, 9, 9, 9])"
proof -
  have a: "fst (is_valid_key (Some (ascii ''133617-133617-133617-133617-133617-133617-133617-133617''))
     (Some (replicate 8 9))) = TRUE"
    by code_simp
  have b: "\<forall>x\<in>set (block_at (ascii ''133617-133617-133617-133617-133617-133617-133617-133617'') 2).
      isdigit x"
    by code_simp
  have c: "isdigit 57" by code_simp
  have d: "57 \<noteq> ascii ''133617-133617-133617-133617-133617-133617-133617-133617'' ! (7 * 2 + 3)"
    by code_simp
  have e: "block_value (block_at
      ((ascii ''133617-133617-133617-133617-133617-133617-133617-133617'')[7 * 2 + 3 := 57]) 2) = 133917"
    by code_simp
  have f: "stored (ascii ''133617-133617-133617-133617-133617-133617-133617-133617'') 2
      (replicate 8 9) = [12147, 12147, 9, 9, 9, 9, 9, 9]"
    by code_simp
  note t = single_digit_error_detected [OF a _ _ b c d]
  have t1: "fst (is_valid_key
     (Some ((ascii ''133617-133617-133617-133617-133617-133617-133617-133617'')[7 * 2 + 3 := 57]))
     (Some (replicate 8 9))) = FALSE (BlockInvalid (NotDivisibleBy11 3 133917))"
    using t e by simp
  have t2: "snd (is_valid_key
     (Some ((ascii ''133617-133617-133617-133617-133617-133617-133617-133617'')[7 * 2 + 3 := 57]))
     (Some (replicate 8 9))) = Some [12147, 12147, 9, 9, 9, 9, 9, 9]"
    using t f by simp
  show ?thesis
    using a t1 t2 by (simp add: prod_eq_iff)
qed

text \<open>
  The amended claim asks for a block of digits. In a block that \<open>valid_block\<close> accepts
  although it holds other characters (see claim C3), a changed digit can go unnoticed:
  the cast to \<open>int8_t\<close> wraps the sum from 130 to -126, which has the same remainder
  as 127.
\<close>

lemma single_digit_error_in_letter_block:
  "fst (is_valid_key (Some (ascii ''z030b6-133617-133617-133617-133617-133617-133617-133617''))
     (Some (replicate 8 0))) = TRUE \<and>
   fst (is_valid_key
     (Some ((ascii ''z030b6-133617-133617-133617-133617-133617-133617-133617'')[2 := 54]))
     (Some (replicate 8 0))) = TRUE"
  by code_simp

section \<open>Typing a valid password\<close>

lemma prompt_round_hyphen: "prompt_round 45 st = Continue st"
  by (simp add: prompt_round_def)

lemma prompt_loop_filter:
  "prompt_loop input st = prompt_loop (filter (\<lambda>c. c \<noteq> 45) input) st"
proof (induction input arbitrary: st)
  case Nil
  then show ?case by simp
next
  case (Cons c cs)
  show ?case
  proof (cases "c = 45")
    case True
    then show ?thesis using Cons [of st] by (simp add: prompt_round_hyphen)
  next
    case False
    then show ?thesis using Cons by (simp split: loop_outcome.splits)
  qed
qed

lemma isdigit_key:
  assumes "isdigit c"
  shows "c \<noteq> 45" "c \<noteq> 8" "c \<noteq> 127" "48 \<le> c" "c \<le> 57" "c \<noteq> 0"
  using assms by (auto simp: isdigit_uint word_le_def)

lemma prompt_round_digit:
  assumes "isdigit c" and "idx st < 5"
  shows "prompt_round c st =
           Continue (st\<lparr>digits := (digits st)[nat (idx st) := c], idx := idx st + 1\<rparr>)"
  using assms isdigit_key [OF assms(1)] by (simp add: prompt_round_def)

lemma prompt_round_last_digit:
  assumes "isdigit c" and "idx st = 5"
  shows "prompt_round c st =
           end_of_block (st\<lparr>digits := (digits st)[5 := c], idx := 6\<rparr>)"
  using assms isdigit_key [OF assms(1)] by (simp add: prompt_round_def)

lemma end_of_block_accepted:
  assumes "block_accepted (take 6 (digits st))"
  shows "end_of_block st =
     (let st1 = st\<lparr>rp_buf := snprintf_s (rp_buf st) (blah st) 7 (digits st),
                    blah := blah st + 6\<rparr>
      in if block_nb st1 \<ge> 8 then ReturnTrue st1
         else Continue (clear_block
                (st1\<lparr>rp_buf := (rp_buf st1)[blah st1 := 45],
                     blah := blah st1 + 1,
                     block_nb := block_nb st1 + 1\<rparr>)))"
proof -
  obtain r cell where v: "valid_block (Some (take 6 (digits st))) (block_nb st) None = (r, cell)"
    by (cases "valid_block (Some (take 6 (digits st))) (block_nb st) None")
  then have "r = TRUE"
    using assms valid_block_accepted [of "take 6 (digits st)" "block_nb st" None] by simp
  then show ?thesis
    by (simp add: end_of_block_def v)
qed

lemma replicate_7: "replicate 7 x = [x, x, x, x, x, x, x]"
  by (simp add: numeral_eq_Suc)

lemma replicate_6: "replicate 6 x = [x, x, x, x, x, x]"
  by (simp add: numeral_eq_Suc)

lemma prompt_loop_block:
  assumes "length b = 6" and "\<forall>c\<in>set b. isdigit c" and "block_accepted b"
  shows "prompt_loop (b @ rest)
           \<lparr>idx = 0, block_nb = n, digits = replicate 7 0, rp_buf = r, blah = a\<rparr> =
     (if n \<ge> 8 then (TRUE, write_at r a (b @ [0]))
      else prompt_loop rest
             \<lparr>idx = 0, block_nb = n + 1, digits = replicate 7 0,
              rp_buf = (write_at r a (b @ [0]))[a + 6 := 45], blah = a + 7\<rparr>)"
proof -
  obtain d0 d1 d2 d3 d4 d5 where b: "b = [d0, d1, d2, d3, d4, d5]"
    using assms(1) by (rule length_6_cases)
  have d: "isdigit d0" "isdigit d1" "isdigit d2" "isdigit d3" "isdigit d4" "isdigit d5"
    using assms(2) by (simp_all add: b)
  have nz: "d0 \<noteq> 0" "d1 \<noteq> 0" "d2 \<noteq> 0" "d3 \<noteq> 0" "d4 \<noteq> 0" "d5 \<noteq> 0"
    using d by (simp_all add: isdigit_key)
  have acc: "block_accepted [d0, d1, d2, d3, d4, d5]"
    using assms(3) by (simp add: b)
  have c: "c_string [d0, d1, d2, d3, d4, d5, 0] = [d0, d1, d2, d3, d4, d5]"
    using nz by (simp add: c_string_def)
  show ?thesis
    unfolding b
    by (simp add: replicate_7 replicate_6 prompt_round_digit prompt_round_last_digit d
        end_of_block_accepted acc snprintf_s_def c clear_block_def Let_def add.commute)
qed

lemma write_at_zeros:
  assumes "length pre = off" and "length bs \<le> n"
  shows "write_at (pre @ replicate n 0) off bs = pre @ bs @ replicate (n - length bs) 0"
  using assms by (simp add: write_at_def)

lemma prompt_loop_blocks:
  assumes "bs \<noteq> []" and "k + length bs = 8" and "length pre = 7 * k"
    and "\<forall>b\<in>set bs. length b = 6 \<and> (\<forall>c\<in>set b. isdigit c) \<and> block_accepted b"
  shows "prompt_loop (concat bs) (block_start k pre) = (TRUE, pre @ join_blocks bs @ [0])"
  using assms
proof (induction bs arbitrary: k pre)
  case Nil
  then show ?case by simp
next
  case (Cons b bs)
  have b: "length b = 6" "\<forall>c\<in>set b. isdigit c" "block_accepted b"
    using Cons.prems(4) by simp_all
  show ?case
  proof (cases bs)
    case Nil
    then have k: "k = 7" using Cons.prems(2) by simp
    have "prompt_loop (b @ []) (block_start 7 pre) =
            (TRUE, write_at (pre @ replicate 7 0) 49 (b @ [0]))"
      unfolding block_start_def using prompt_loop_block [OF b, of "[]" 8 "pre @ replicate 7 0" 49]
      by simp
    also have "write_at (pre @ replicate 7 0) 49 (b @ [0]) = pre @ b @ [0]"
      using Cons.prems(3) b(1) k by (simp add: write_at_zeros)
    finally show ?thesis using Nil k by simp
  next
    case (Cons b' bs')
    then have k: "k < 7" using Cons.prems(2) by simp
    define zs :: "u8 list" where "zs = replicate (56 - 7 * Suc k) 0"
    have w: "write_at (pre @ replicate (56 - 7 * k) 0) (7 * k) (b @ [0]) = pre @ b @ 0 # zs"
      using Cons.prems(3) b(1) k by (simp add: write_at_zeros zs_def)
    have u: "(pre @ b @ 0 # zs)[7 * k + 6 := 45] = (pre @ b @ [45]) @ zs"
      using Cons.prems(3) b(1) by (simp add: list_update_append)
    have st: "\<lparr>idx = 0, block_nb = int k + 1 + 1, digits = replicate 7 0,
               rp_buf = (write_at (pre @ replicate (56 - 7 * k) 0) (7 * k) (b @ [0]))[7 * k + 6 := 45],
               blah = 7 * k + 7\<rparr> = block_start (Suc k) (pre @ b @ [45])"
      unfolding w u by (simp add: block_start_def zs_def)
    have "prompt_loop (b @ concat bs) (block_start k pre) =
            prompt_loop (concat bs) (block_start (Suc k) (pre @ b @ [45]))"
      using prompt_loop_block [OF b, of "concat bs" "int k + 1" "pre @ replicate (56 - 7 * k) 0" "7 * k"] k
      unfolding st by (simp add: block_start_def)
    also have "\<dots> = (TRUE, (pre @ b @ [45]) @ join_blocks bs @ [0])"
      using Cons.prems b(1) \<open>bs = b' # bs'\<close>
      by (intro Cons.IH) simp_all
    finally show ?thesis using \<open>bs = b' # bs'\<close> by simp
  qed
qed

lemma prompt_init_start: "prompt_init = block_start 0 []"
  by (simp add: prompt_init_def block_start_def)

lemma prompt_rp_blocks:
  assumes "length bs = 8"
    and "\<forall>b\<in>set bs. length b = 6 \<and> (\<forall>c\<in>set b. isdigit c) \<and> block_accepted b"
    and "filter (\<lambda>c. c \<noteq> 45) input = concat bs"
  shows "prompt_rp (Some old) input = (TRUE, Some (join_blocks bs @ [0]))"
proof -
  have "prompt_loop input prompt_init = prompt_loop (concat bs) (block_start 0 [])"
    using prompt_loop_filter [of input prompt_init] assms(3) by (simp add: prompt_init_start)
  also have "\<dots> = (TRUE, [] @ join_blocks bs @ [0])"
    using assms(1,2) by (intro prompt_loop_blocks) auto
  finally show ?thesis by (simp add: prompt_rp_def)
qed

lemma length_8_cases:
  assumes "length (x :: 'a list) = 8"
  obtains x0 x1 x2 x3 x4 x5 x6 x7 where "x = [x0, x1, x2, x3, x4, x5, x6, x7]"
proof -
  from assms obtain x0 y where "x = x0 # y" "length y = 7" by (cases x) auto
  moreover then obtain x1 z where "y = x1 # z" "length z = 6" by (cases y) auto
  moreover then obtain x2 x3 x4 x5 x6 x7 where "z = [x2, x3, x4, x5, x6, x7]"
    by (auto elim: length_6_cases)
  ultimately show ?thesis using that by simp
qed

lemma join_blocks_shape:
  assumes "length bs = 8" and "\<forall>b\<in>set bs. length b = 6"
  shows "length (join_blocks bs) = 55"
    and "k < 7 \<Longrightarrow> join_blocks bs ! (7 * k + 6) = 45"
    and "k < 8 \<Longrightarrow> block_at (join_blocks bs) k = bs ! k"
    and "k < 8 \<Longrightarrow> block_at (join_blocks bs @ [0]) k = bs ! k"
proof -
  obtain b0 b1 b2 b3 b4 b5 b6 b7 where bs: "bs = [b0, b1, b2, b3, b4, b5, b6, b7]"
    using assms(1) by (rule length_8_cases)
  have l: "length b0 = 6" "length b1 = 6" "length b2 = 6" "length b3 = 6"
    "length b4 = 6" "length b5 = 6" "length b6 = 6" "length b7 = 6"
    using assms(2) by (simp_all add: bs)
  show "length (join_blocks bs) = 55"
    by (simp add: bs l)
  {
    assume "k < 7"
    then have "k = 0 \<or> k = 1 \<or> k = 2 \<or> k = 3 \<or> k = 4 \<or> k = 5 \<or> k = 6" by auto
    then show "join_blocks bs ! (7 * k + 6) = 45"
      by (elim disjE) (simp_all add: bs l nth_append nth_Cons')
  }
  {
    assume "k < 8"
    then have k: "k = 0 \<or> k = 1 \<or> k = 2 \<or> k = 3 \<or> k = 4 \<or> k = 5 \<or> k = 6 \<or> k = 7" by auto
    then show "block_at (join_blocks bs) k = bs ! k"
      by (elim disjE) (simp_all add: bs l block_at_def)
    from k show "block_at (join_blocks bs @ [0]) k = bs ! k"
      by (elim disjE) (simp_all add: bs l block_at_def)
  }
qed

lemma join_blocks_nonzero:
  "\<forall>b\<in>set bs. \<forall>c\<in>set b. isdigit c \<Longrightarrow> \<forall>c\<in>set (join_blocks bs). c \<noteq> 0"
  by (induction bs rule: join_blocks.induct) (auto dest: isdigit_key(6))

lemma strlen_terminated:
  assumes "\<forall>c\<in>set s. c \<noteq> 0"
  shows "strlen (s @ [0]) = length s"
  using assms by (simp add: strlen_def takeWhile_append2 [of s "\<lambda>c. c \<noteq> 0"])

text \<open>
  Claim C6. Let the input hold, apart from hyphens placed anywhere, exactly the 48
  digits of eight blocks that \<open>valid_block\<close> accepts. Then \<open>prompt_rp\<close> returns
  \<open>TRUE\<close> and the buffer holds the normalized password followed by NUL: 55
  characters, the eight blocks in order with a hyphen at each of the positions 6, 13,
  ..., 48, a string that \<open>is_valid_key\<close> accepts.
\<close>

theorem prompt_rp_valid_password:
  assumes "length bs = 8"
    and "\<forall>b\<in>set bs. length b = 6 \<and> (\<forall>c\<in>set b. isdigit c) \<and> block_accepted b"
    and "filter (\<lambda>c. c \<noteq> 45) input = concat bs"
  shows "prompt_rp (Some old) input = (TRUE, Some (join_blocks bs @ [0])) \<and>
         strlen (join_blocks bs @ [0]) = 55 \<and>
         length (join_blocks bs) = 55 \<and>
         (\<forall>k<7. join_blocks bs ! (7 * k + 6) = 45) \<and>
         (\<forall>k<8. block_at (join_blocks bs) k = bs ! k) \<and>
         fst (is_valid_key (Some (join_blocks bs @ [0])) (Some sp)) = TRUE"
proof -
  have l6: "\<forall>b\<in>set bs. length b = 6" using assms(2) by simp
  note shape = join_blocks_shape [OF assms(1) l6]
  have nz: "\<forall>c\<in>set (join_blocks bs). c \<noteq> 0"
    using assms(2) by (intro join_blocks_nonzero) simp
  have len: "strlen (join_blocks bs @ [0]) = 55"
    using strlen_terminated [OF nz] shape(1) by simp
  have "block_accepted (block_at (join_blocks bs @ [0]) k)" if "k < 8" for k
    using that assms(1,2) shape(4) [OF that] by simp
  then have "fst (is_valid_key (Some (join_blocks bs @ [0])) (Some sp)) = TRUE"
    using len by (simp add: is_valid_key_accepts)
  then show ?thesis
    using prompt_rp_blocks [OF assms] len shape(1,2,3) by simp
qed

theorem prompt_rp_valid_password_witness:
  "prompt_rp (Some []) (ascii ''13-3617133617-133617133617133--617133617133617-133617-'') =
     (TRUE, Some (ascii ''133617-133617-133617-133617-133617-133617-133617-133617'' @ [0]))"
proof -
  have a: "length (replicate 8 (ascii ''133617'')) = 8" by simp
  have b: "\<forall>b\<in>set (replicate 8 (ascii ''133617'')).
      length b = 6 \<and> (\<forall>c\<in>set b. isdigit c) \<and> block_accepted b"
    by code_simp
  have c: "filter (\<lambda>c. c \<noteq> 45)
      (ascii ''13-3617133617-133617133617133--617133617133617-133617-'') =
      concat (replicate 8 (ascii ''133617''))"
    by code_simp
  have d: "join_blocks (replicate 8 (ascii ''133617'')) =
      ascii ''133617-133617-133617-133617-133617-133617-133617-133617''"
    by code_simp
  show ?thesis
    using prompt_rp_valid_password [OF a b c, of "[]" "[]"] unfolding d by simp
qed

end
